theory Spec2Isabelle
  imports Main "HOL-Library.Word"
begin

unbundle bit_operations_syntax

section \<open>Bytes, errors and black-box primitives\<close>

text \<open>
  A byte run \<open>(const char * data, size_t size)\<close> is the list of its \<open>size\<close> bytes.
  Exceptions are values: every \<open>throw Exception(..., ErrorCodes::X)\<close> of the source is
  \<open>Inl X\<close>.
\<close>

type_synonym bytes = "8 word list"

datatype error =
    ILLEGAL_TYPE_OF_ARGUMENT
  | BAD_ARGUMENTS
  | LOGICAL_ERROR
  | NUMBER_OF_ARGUMENTS_DOESNT_MATCH
  | NOT_IMPLEMENTED
  | ILLEGAL_COLUMN

definition bytes_of :: "string \<Rightarrow> bytes" where
  "bytes_of s = map of_char s"

section \<open>The Java-compatible hashes\<close>

text \<open>
  \<open>JavaHashImpl::apply\<close>: \<open>h = 31 * h + static_cast<UInt32>(static_cast<Int8>(data[i]))\<close>
  in unsigned 32-bit arithmetic; the result is read as \<open>Int32\<close> (\<open>sint\<close>).
\<close>

definition JavaHashImpl_apply :: "bytes \<Rightarrow> 32 word" where
  "JavaHashImpl_apply data = foldl (\<lambda>h b. 31 * h + scast b) 0 data"

definition HiveHashImpl_apply :: "bytes \<Rightarrow> 32 word" where
  "HiveHashImpl_apply data = 0x7FFFFFFF AND JavaHashImpl_apply data"

text \<open>
  \<open>JavaHashUTF16LEImpl::apply\<close>. The pointer \<open>data\<close> advanced by two is \<open>drop 2\<close>; the
  loop steps the index by two and reads \<open>data[i]\<close> and \<open>data[i + 1]\<close>.
\<close>

function utf16_loop :: "bytes \<Rightarrow> nat \<Rightarrow> nat \<Rightarrow> 32 word \<Rightarrow> 32 word" where
  "utf16_loop data sz i h =
     (if i < sz
      then utf16_loop data sz (i + 2)
             (31 * h + ucast ((ucast (data ! i) OR push_bit 8 (ucast (data ! (i + 1)))) :: 16 word))
      else h)"
  by pat_completeness auto
termination
  by (relation "measure (\<lambda>(data, sz, i, h). sz - i)") auto

declare utf16_loop.simps [simp del]

definition JavaHashUTF16LEImpl_apply :: "bytes \<Rightarrow> error + 32 word" where
  "JavaHashUTF16LEImpl_apply raw_data =
     (let (data, sz) =
            (if length raw_data \<ge> 2 \<and> raw_data ! 0 = 0xFF \<and> raw_data ! 1 = 0xFE
             then (drop 2 raw_data, length raw_data - 2)
             else (raw_data, length raw_data))
      in if sz mod 2 \<noteq> 0 then Inl BAD_ARGUMENTS
         else Inr (utf16_loop data sz 0 0))"

text \<open>
  The Java string hash as \<open>java.lang.String.hashCode\<close> documents it, over 16-bit code
  units: \<open>s[0]*31^(n-1) + s[1]*31^(n-2) + ... + s[n-1]\<close> in 32-bit arithmetic; and the
  little-endian code units of an even-length byte run.
\<close>

definition java_string_hashCode :: "16 word list \<Rightarrow> 32 word" where
  "java_string_hashCode s =
     sum_list (map (\<lambda>i. ucast (s ! i) * 31 ^ (length s - 1 - i)) [0..<length s])"

fun utf16le_units :: "bytes \<Rightarrow> 16 word list" where
  "utf16le_units (lo # hi # rest) = (ucast lo OR push_bit 8 (ucast hi)) # utf16le_units rest"
| "utf16le_units _ = []"

definition strip_bom :: "bytes \<Rightarrow> bytes" where
  "strip_bom raw = (if take 2 raw = [0xFF, 0xFE] then drop 2 raw else raw)"

section \<open>URL hashing\<close>

text \<open>
  \<open>URLHashImpl::apply\<close> over the run \<open>data[0..size)\<close>; \<open>CityHash64\<close> is the byte-hash
  primitive, a parameter.
\<close>

definition is_url_sep :: "8 word \<Rightarrow> bool" where
  "is_url_sep c = (c = of_char CHR ''/'' \<or> c = of_char CHR ''?'' \<or> c = of_char CHR ''#'')"

definition URLHashImpl_apply :: "(bytes \<Rightarrow> 64 word) \<Rightarrow> bytes \<Rightarrow> nat \<Rightarrow> 64 word" where
  "URLHashImpl_apply CityHash64 data sz =
     (if sz > 0 \<and> is_url_sep (data ! (sz - 1))
      then CityHash64 (take (sz - 1) data)
      else CityHash64 (take sz data))"


















text \<open>One step of the UTF-16 loop, named for the proofs.\<close>

definition utf16_step :: "32 word \<Rightarrow> 16 word \<Rightarrow> 32 word" where
  "utf16_step h c = 31 * h + ucast c"






section \<open>The data model of the variadic hash functions\<close>

text \<open>
  The numeric type names. They serve both as the tags \<open>WhichDataType\<close> tests in
  \<open>executeAny\<close> and as the element types \<open>FromType\<close> of \<open>ColumnVector\<close> and
  \<open>ColumnDecimal\<close>.
\<close>

datatype num_type =
    UInt8 | UInt16 | UInt32 | UInt64 | UInt128 | UInt256
  | Int8 | Int16 | Int32 | Int64 | Int128 | Int256
  | UUID | Enum8 | Enum16 | Date | Date32 | DateTime
  | Decimal32 | Decimal64 | Decimal128 | Decimal256
  | Float32 | Float64

text \<open>
  \<open>IDataType\<close>. A map type stores its nested type (an array of key-value tuples), which
  \<open>getNestedType\<close> returns. \<open>TypeOther\<close> is every type without a branch of its own in
  \<open>executeAny\<close>.
\<close>

datatype data_type =
    TypeNumber num_type
  | TypeString
  | TypeFixedString
  | TypeArray data_type
  | TypeTuple "data_type list"
  | TypeMap data_type
  | TypeByteMap data_type
  | TypeOther

text \<open>
  \<open>IColumn\<close>. A numeric element is its object representation, \<open>sizeof(FromType)\<close> bytes.
  \<open>ColumnString\<close> holds the characters of all rows, each row closed by a zero byte, and
  the offset after each row; \<open>ColumnArray\<close> holds the elements of all rows and the offset
  after each row; \<open>ColumnConst\<close> holds a column of one row and the number of rows it
  stands for; \<open>ColumnMap\<close> and \<open>ColumnByteMap\<close> hold the nested array column their
  accessors return. \<open>ColumnOther\<close> is any other column.
\<close>

datatype column =
    ColumnVector num_type "bytes list"
  | ColumnString bytes "nat list"
  | ColumnFixedString nat bytes
  | ColumnArray column "nat list"
  | ColumnTuple "column list"
  | ColumnMap column
  | ColumnByteMap column
  | ColumnConst column nat
  | ColumnOther "bytes list"

text \<open>
  Modelled from the spec: \<open>IColumn::size\<close> (the column classes are not under src/), the
  number of rows of a column.
\<close>

fun column_size :: "column \<Rightarrow> nat" where
  "column_size (ColumnVector t vs) = length vs"
| "column_size (ColumnString chars offsets) = length offsets"
| "column_size (ColumnFixedString n chars) = length chars div n"
| "column_size (ColumnArray d offsets) = length offsets"
| "column_size (ColumnTuple cs) = (case cs of [] \<Rightarrow> 0 | c # _ \<Rightarrow> column_size c)"
| "column_size (ColumnMap c) = column_size c"
| "column_size (ColumnByteMap c) = column_size c"
| "column_size (ColumnConst c s) = s"
| "column_size (ColumnOther rows) = length rows"

text \<open>
  Modelled from the spec: \<open>ColumnConst::convertToFullColumn\<close> (not under src/),
  "materialize a constant column to a full column": the one row of the data column, \<open>s\<close>
  times. \<open>repeat_column s c\<close> is the column whose rows are those of \<open>c\<close>, \<open>s\<close> times over.
\<close>

definition repeat_offsets :: "nat \<Rightarrow> nat \<Rightarrow> nat list \<Rightarrow> nat list" where
  "repeat_offsets s period offsets = concat (map (\<lambda>b. map (\<lambda>off. off + b * period) offsets) [0..<s])"

fun repeat_column :: "nat \<Rightarrow> column \<Rightarrow> column" where
  "repeat_column s (ColumnVector t vs) = ColumnVector t (concat (replicate s vs))"
| "repeat_column s (ColumnString chars offsets) =
     ColumnString (concat (replicate s chars)) (repeat_offsets s (length chars) offsets)"
| "repeat_column s (ColumnFixedString n chars) = ColumnFixedString n (concat (replicate s chars))"
| "repeat_column s (ColumnArray d offsets) =
     ColumnArray (repeat_column s d) (repeat_offsets s (column_size d) offsets)"
| "repeat_column s (ColumnTuple cs) = ColumnTuple (map (repeat_column s) cs)"
| "repeat_column s (ColumnMap c) = ColumnMap (repeat_column s c)"
| "repeat_column s (ColumnByteMap c) = ColumnByteMap (repeat_column s c)"
| "repeat_column s (ColumnConst c m) = ColumnConst c (s * m)"
| "repeat_column s (ColumnOther rows) = ColumnOther (concat (replicate s rows))"

fun convertToFullColumn :: "column \<Rightarrow> column" where
  "convertToFullColumn (ColumnConst d s) = repeat_column s d"
| "convertToFullColumn c = c"

text \<open>
  Modelled from the spec: \<open>bit_cast\<close> (common/bit\_cast.h is not under src/), "the bit
  pattern" of a value widened or cut to the target width: the low bytes of the object
  representation, little-endian, zero-filled.
\<close>

definition le_word :: "bytes \<Rightarrow> 'a::len word" where
  "le_word bs = foldr (\<lambda>b w. ucast b OR push_bit 8 w) bs 0"

definition bit_cast_UInt64 :: "bytes \<Rightarrow> 64 word" where
  "bit_cast_UInt64 v = le_word (take 8 v)"

definition bit_cast_UInt32 :: "bytes \<Rightarrow> 32 word" where
  "bit_cast_UInt32 v = le_word (take 4 v)"

text \<open>
  A hash policy \<open>Impl\<close> with an integer \<open>ReturnType\<close>, here \<open>'w word\<close>: \<open>UInt64\<close> is
  \<open>64 word\<close>, \<open>UInt32\<close> and \<open>Int32\<close> are \<open>32 word\<close>. \<open>hash_apply\<close> is \<open>Impl::apply\<close>
  without a seed, \<open>hash_apply_seed\<close> with one; an \<open>Impl\<close> has one of the two, and the other
  field is not called.
\<close>

record 'd Impl =
  hash_apply :: "bytes \<Rightarrow> error + 'd"
  hash_apply_seed :: "bytes \<Rightarrow> 32 word \<Rightarrow> error + 'd"
  combineHashes :: "'d \<Rightarrow> 'd \<Rightarrow> error + 'd"
  use_int_hash_for_pods :: bool

text \<open>
  A function instance \<open>FunctionAnyHash<Impl, with_seed>\<close> and what it takes from the rest
  of the engine, as parameters: the integer hashes \<open>intHash32<salt>\<close> and \<open>intHash64\<close>,
  \<open>IColumn::getDataAt\<close>, \<open>ColumnConst::getValue<UInt32>\<close> on the data column of a constant,
  and the indeterminate element a freshly created container holds at each index. The
  member \<open>seed\<close> is 0 until \<open>executeImpl\<close> sets it.
\<close>

record 'd FunctionAnyHash =
  Impl :: "'d Impl"
  with_seed :: bool
  seed :: "32 word"
  intHash32 :: "64 word \<Rightarrow> 64 word \<Rightarrow> 32 word"
  intHash64 :: "64 word \<Rightarrow> 64 word"
  getDataAt :: "column \<Rightarrow> nat \<Rightarrow> bytes"
  getValue_UInt32 :: "column \<Rightarrow> 32 word"
  uninitialized :: "nat \<Rightarrow> 'd"

definition IntHash32Impl_apply :: "('w::len) word FunctionAnyHash \<Rightarrow> 64 word \<Rightarrow> 32 word" where
  "IntHash32Impl_apply F x = intHash32 F 0x75D9543DE018BF45 x"

definition IntHash64Impl_apply :: "('w::len) word FunctionAnyHash \<Rightarrow> 64 word \<Rightarrow> 64 word" where
  "IntHash64Impl_apply F x = intHash64 F (x XOR 0x4CF2D2BAAE6DA887)"

definition new_container :: "('w::len) word FunctionAnyHash \<Rightarrow> nat \<Rightarrow> 'w word list" where
  "new_container F n = map (uninitialized F) [0..<n]"

definition applyWithSeed :: "('w::len) word FunctionAnyHash \<Rightarrow> bytes \<Rightarrow> error + 'w word" where
  "applyWithSeed F data =
     (if with_seed F then hash_apply_seed (Impl F) data (seed F) else hash_apply (Impl F) data)"

text \<open>
  The fast-path hash of a fixed-width value, \<open>IntHash64Impl\<close> when \<open>ToType\<close> is \<open>UInt64\<close>
  and \<open>IntHash32Impl\<close> otherwise; and the same choice for an array's element count, which
  is a \<open>UInt64\<close> difference of offsets.
\<close>

definition int_hash_value :: "('w::len) word FunctionAnyHash \<Rightarrow> bytes \<Rightarrow> 'w word" where
  "int_hash_value F v =
     (if LENGTH('w) = 64 then ucast (IntHash64Impl_apply F (bit_cast_UInt64 v))
      else ucast (IntHash32Impl_apply F (ucast (bit_cast_UInt32 v))))"

definition int_hash_count :: "('w::len) word FunctionAnyHash \<Rightarrow> nat \<Rightarrow> 'w word" where
  "int_hash_count F n =
     (if LENGTH('w) = 64 then ucast (IntHash64Impl_apply F (of_nat n))
      else ucast (IntHash32Impl_apply F (of_nat n)))"

text \<open>
  The statement every row loop ends with:
  \<open>if constexpr (first) vec_to[i] = h; else vec_to[i] = Impl::combineHashes(vec_to[i], h);\<close>
\<close>

definition assign_or_combine ::
  "('w::len) word FunctionAnyHash \<Rightarrow> bool \<Rightarrow> nat \<Rightarrow> 'w word \<Rightarrow> 'w word list \<Rightarrow> error + 'w word list" where
  "assign_or_combine F first i h vec_to =
     (if first then Inr (vec_to[i := h])
      else (case combineHashes (Impl F) (vec_to ! i) h of
              Inl e \<Rightarrow> Inl e
            | Inr c \<Rightarrow> Inr (vec_to[i := c])))"

text \<open>A \<open>for\<close> loop over the given indices whose body may throw.\<close>

fun for_loop :: "nat list \<Rightarrow> (nat \<Rightarrow> 's \<Rightarrow> error + 's) \<Rightarrow> 's \<Rightarrow> error + 's" where
  "for_loop [] body st = Inr st"
| "for_loop (i # rest) body st =
     (case body i st of Inl e \<Rightarrow> Inl e | Inr st' \<Rightarrow> for_loop rest body st')"

text \<open>
  The dense branch of \<open>executeIntType\<close> and of \<open>executeBigIntType\<close>: one hash per element
  of \<open>vec_from\<close>; and their constant branch: one hash of the value, assigned to or combined
  into each of the \<open>vec_to.size()\<close> rows.
\<close>

definition hash_rows ::
  "('w::len) word FunctionAnyHash \<Rightarrow> bool \<Rightarrow> (nat \<Rightarrow> error + 'w word) \<Rightarrow> nat \<Rightarrow> 'w word list
     \<Rightarrow> error + 'w word list" where
  "hash_rows F first row_hash sz vec_to =
     for_loop [0..<sz]
       (\<lambda>i vec. case row_hash i of Inl e \<Rightarrow> Inl e | Inr h \<Rightarrow> assign_or_combine F first i h vec)
       vec_to"

definition hash_const ::
  "('w::len) word FunctionAnyHash \<Rightarrow> bool \<Rightarrow> 'w word \<Rightarrow> 'w word list \<Rightarrow> error + 'w word list" where
  "hash_const F first h vec_to =
     (let sz = length vec_to in
      if first then Inr (replicate sz h)
      else for_loop [0..<sz]
             (\<lambda>i vec. case combineHashes (Impl F) (vec ! i) h of
                         Inl e \<Rightarrow> Inl e
                       | Inr c \<Rightarrow> Inr (vec[i := c]))
             vec_to)"

definition pod_hash :: "('w::len) word FunctionAnyHash \<Rightarrow> bytes \<Rightarrow> error + 'w word" where
  "pod_hash F v =
     (if use_int_hash_for_pods (Impl F) then Inr (int_hash_value F v) else applyWithSeed F v)"

definition executeIntType ::
  "('w::len) word FunctionAnyHash \<Rightarrow> num_type \<Rightarrow> bool \<Rightarrow> column \<Rightarrow> 'w word list \<Rightarrow> error + 'w word list" where
  "executeIntType F FromType first column vec_to =
     (case column of
        ColumnVector t vec_from \<Rightarrow>
          if t = FromType
          then hash_rows F first (\<lambda>i. pod_hash F (vec_from ! i)) (length vec_from) vec_to
          else Inl ILLEGAL_COLUMN
      | ColumnConst (ColumnVector t vs) s \<Rightarrow>
          if t = FromType
          then (case pod_hash F (vs ! 0) of
                  Inl e \<Rightarrow> Inl e
                | Inr h \<Rightarrow> hash_const F first h vec_to)
          else Inl ILLEGAL_COLUMN
      | _ \<Rightarrow> Inl ILLEGAL_COLUMN)"

definition executeBigIntType ::
  "('w::len) word FunctionAnyHash \<Rightarrow> num_type \<Rightarrow> bool \<Rightarrow> column \<Rightarrow> 'w word list \<Rightarrow> error + 'w word list" where
  "executeBigIntType F FromType first column vec_to =
     (case column of
        ColumnVector t vec_from \<Rightarrow>
          if t = FromType
          then hash_rows F first (\<lambda>i. applyWithSeed F (vec_from ! i)) (length vec_from) vec_to
          else Inl ILLEGAL_COLUMN
      | ColumnConst (ColumnVector t vs) s \<Rightarrow>
          if t = FromType
          then (case applyWithSeed F (vs ! 0) of
                  Inl e \<Rightarrow> Inl e
                | Inr h \<Rightarrow> hash_const F first h vec_to)
          else Inl ILLEGAL_COLUMN
      | _ \<Rightarrow> Inl ILLEGAL_COLUMN)"

definition executeGeneric ::
  "('w::len) word FunctionAnyHash \<Rightarrow> bool \<Rightarrow> column \<Rightarrow> 'w word list \<Rightarrow> error + 'w word list" where
  "executeGeneric F first column vec_to =
     hash_rows F first (\<lambda>i. applyWithSeed F (getDataAt F column i)) (column_size column) vec_to"

text \<open>
  \<open>executeString\<close>. The loop over a \<open>ColumnString\<close> carries \<open>current_offset\<close> with the
  container; row \<open>i\<close> is the run of \<open>offsets[i] - current_offset - 1\<close> bytes at
  \<open>current_offset\<close>. The value of a constant is row 0 of its data column.
\<close>

definition byte_run :: "bytes \<Rightarrow> nat \<Rightarrow> nat \<Rightarrow> bytes" where
  "byte_run data pos len = take len (drop pos data)"

definition string_value :: "column \<Rightarrow> bytes" where
  "string_value d =
     (case d of
        ColumnString chars offsets \<Rightarrow> byte_run chars 0 (offsets ! 0 - 1)
      | ColumnFixedString n chars \<Rightarrow> byte_run chars 0 n
      | _ \<Rightarrow> [])"

definition executeString ::
  "('w::len) word FunctionAnyHash \<Rightarrow> bool \<Rightarrow> column \<Rightarrow> 'w word list \<Rightarrow> error + 'w word list" where
  "executeString F first column vec_to =
     (case column of
        ColumnString data offsets \<Rightarrow>
          (case for_loop [0..<length offsets]
                  (\<lambda>i (current_offset, vec).
                     case applyWithSeed F (byte_run data current_offset (offsets ! i - current_offset - 1)) of
                       Inl e \<Rightarrow> Inl e
                     | Inr h \<Rightarrow>
                         (case assign_or_combine F first i h vec of
                            Inl e \<Rightarrow> Inl e
                          | Inr vec' \<Rightarrow> Inr (offsets ! i, vec')))
                  (0, vec_to) of
             Inl e \<Rightarrow> Inl e
           | Inr (current_offset, vec) \<Rightarrow> Inr vec)
      | ColumnFixedString n data \<Rightarrow>
          hash_rows F first (\<lambda>i. applyWithSeed F (byte_run data (i * n) n)) (length data div n) vec_to
      | ColumnConst d s \<Rightarrow>
          (case d of
             ColumnString chars offsets \<Rightarrow>
               (case applyWithSeed F (string_value d) of
                  Inl e \<Rightarrow> Inl e
                | Inr h \<Rightarrow> hash_const F first h vec_to)
           | ColumnFixedString n chars \<Rightarrow>
               (case applyWithSeed F (string_value d) of
                  Inl e \<Rightarrow> Inl e
                | Inr h \<Rightarrow> hash_const F first h vec_to)
           | _ \<Rightarrow> Inl ILLEGAL_COLUMN)
      | _ \<Rightarrow> Inl ILLEGAL_COLUMN)"

text \<open>
  The rows of \<open>executeArray\<close>: per row the hash of the element count, assigned or combined,
  then the element digests \<open>vec_temp[j]\<close> for \<open>j\<close> from \<open>current_offset\<close> up to
  \<open>next_offset\<close>, combined in.
\<close>

definition executeArray_rows ::
  "('w::len) word FunctionAnyHash \<Rightarrow> bool \<Rightarrow> nat list \<Rightarrow> 'w word list \<Rightarrow> 'w word list
     \<Rightarrow> error + 'w word list" where
  "executeArray_rows F first offsets vec_temp vec_to =
     (case for_loop [0..<length offsets]
             (\<lambda>i (current_offset, vec).
                let next_offset = offsets ! i;
                    h = int_hash_count F (next_offset - current_offset)
                in case assign_or_combine F first i h vec of
                     Inl e \<Rightarrow> Inl e
                   | Inr vec1 \<Rightarrow>
                       (case for_loop [current_offset..<next_offset]
                               (\<lambda>j v. case combineHashes (Impl F) (v ! i) (vec_temp ! j) of
                                        Inl e \<Rightarrow> Inl e
                                      | Inr c \<Rightarrow> Inr (v[i := c]))
                               vec1 of
                          Inl e \<Rightarrow> Inl e
                        | Inr vec2 \<Rightarrow> Inr (offsets ! i, vec2)))
             (0, vec_to) of
        Inl e \<Rightarrow> Inl e
      | Inr (current_offset, vec) \<Rightarrow> Inr vec)"

text \<open>
  The chain of tests of \<open>executeAny\<close> on a numeric tag: \<open>True\<close> for \<open>executeIntType\<close>,
  \<open>False\<close> for \<open>executeBigIntType\<close>, with the \<open>FromType\<close> of the call.
\<close>

fun number_dispatch :: "num_type \<Rightarrow> bool \<times> num_type" where
  "number_dispatch UInt8 = (True, UInt8)"
| "number_dispatch UInt16 = (True, UInt16)"
| "number_dispatch UInt32 = (True, UInt32)"
| "number_dispatch UInt64 = (True, UInt64)"
| "number_dispatch UInt128 = (False, UInt128)"
| "number_dispatch UInt256 = (False, UInt256)"
| "number_dispatch Int8 = (True, Int8)"
| "number_dispatch Int16 = (True, Int16)"
| "number_dispatch Int32 = (True, Int32)"
| "number_dispatch Int64 = (True, Int64)"
| "number_dispatch Int128 = (False, Int128)"
| "number_dispatch Int256 = (False, Int256)"
| "number_dispatch UUID = (False, UUID)"
| "number_dispatch Enum8 = (True, Int8)"
| "number_dispatch Enum16 = (True, Int16)"
| "number_dispatch Date = (True, UInt16)"
| "number_dispatch Date32 = (True, Int32)"
| "number_dispatch DateTime = (True, UInt32)"
| "number_dispatch Decimal32 = (False, Decimal32)"
| "number_dispatch Decimal64 = (False, Decimal64)"
| "number_dispatch Decimal128 = (False, Decimal128)"
| "number_dispatch Decimal256 = (False, Decimal256)"
| "number_dispatch Float32 = (True, Float32)"
| "number_dispatch Float64 = (True, Float64)"

text \<open>
  The type-directed traversal. \<open>executeArray\<close>, \<open>executeMap\<close> and \<open>executeByteMap\<close> read the
  nested type through a pointer cast before they look at the column; on a type of another
  kind the source dereferences a null pointer, and \<open>executeTuple\<close> and the loop over the
  fields fail in \<open>typeid_cast\<close> or read past the field types. No type and column of the
  engine lead there; the model answers \<open>LOGICAL_ERROR\<close>. The constant branch of
  \<open>executeByteMap\<close> tests for \<open>ColumnMap\<close>, as the source does.
\<close>

function
  executeAny :: "('w::len) word FunctionAnyHash \<Rightarrow> bool \<Rightarrow> data_type \<Rightarrow> column \<Rightarrow> 'w word list
     \<Rightarrow> error + 'w word list"
and executeArray :: "('w::len) word FunctionAnyHash \<Rightarrow> bool \<Rightarrow> data_type \<Rightarrow> column \<Rightarrow> 'w word list
     \<Rightarrow> error + 'w word list"
and executeTuple :: "('w::len) word FunctionAnyHash \<Rightarrow> bool \<Rightarrow> data_type \<Rightarrow> column \<Rightarrow> 'w word list
     \<Rightarrow> error + 'w word list"
and executeTuple_loop :: "('w::len) word FunctionAnyHash \<Rightarrow> bool \<Rightarrow> data_type list \<Rightarrow> column list
     \<Rightarrow> 'w word list \<Rightarrow> error + 'w word list"
and executeMap :: "('w::len) word FunctionAnyHash \<Rightarrow> bool \<Rightarrow> data_type \<Rightarrow> column \<Rightarrow> 'w word list
     \<Rightarrow> error + 'w word list"
and executeByteMap :: "('w::len) word FunctionAnyHash \<Rightarrow> bool \<Rightarrow> data_type \<Rightarrow> column \<Rightarrow> 'w word list
     \<Rightarrow> error + 'w word list"
where
  "executeAny F first from_type icolumn vec_to =
     (case from_type of
        TypeNumber t \<Rightarrow>
          (case number_dispatch t of
             (True, FromType) \<Rightarrow> executeIntType F FromType first icolumn vec_to
           | (False, FromType) \<Rightarrow> executeBigIntType F FromType first icolumn vec_to)
      | TypeString \<Rightarrow> executeString F first icolumn vec_to
      | TypeFixedString \<Rightarrow> executeString F first icolumn vec_to
      | TypeArray nested \<Rightarrow> executeArray F first from_type icolumn vec_to
      | TypeTuple elems \<Rightarrow> executeTuple F first from_type icolumn vec_to
      | TypeMap nested \<Rightarrow> executeMap F first from_type icolumn vec_to
      | TypeByteMap nested \<Rightarrow> executeByteMap F first from_type icolumn vec_to
      | TypeOther \<Rightarrow> executeGeneric F first icolumn vec_to)"
| "executeArray F first type column vec_to =
     (case type of
        TypeArray nested_type \<Rightarrow>
          (case column of
             ColumnArray nested_column offsets \<Rightarrow>
               (case executeAny F True nested_type nested_column
                       (new_container F (column_size nested_column)) of
                  Inl e \<Rightarrow> Inl e
                | Inr vec_temp \<Rightarrow> executeArray_rows F first offsets vec_temp vec_to)
           | ColumnConst d s \<Rightarrow>
               (case d of
                  ColumnArray nested_column offsets \<Rightarrow>
                    executeArray F first type (convertToFullColumn column) vec_to
                | _ \<Rightarrow> Inl ILLEGAL_COLUMN)
           | _ \<Rightarrow> Inl ILLEGAL_COLUMN)
      | _ \<Rightarrow> Inl LOGICAL_ERROR)"
| "executeTuple F first type column vec_to =
     (case column of
        ColumnTuple tuple_columns \<Rightarrow>
          (case type of
             TypeTuple tuple_types \<Rightarrow> executeTuple_loop F first tuple_types tuple_columns vec_to
           | _ \<Rightarrow> Inl LOGICAL_ERROR)
      | ColumnConst d s \<Rightarrow>
          (case d of
             ColumnTuple tuple_columns \<Rightarrow>
               (case type of
                  TypeTuple tuple_types \<Rightarrow>
                    executeTuple_loop F first tuple_types
                      (map (\<lambda>c. ColumnConst c (column_size column)) tuple_columns) vec_to
                | _ \<Rightarrow> Inl LOGICAL_ERROR)
           | _ \<Rightarrow> Inl ILLEGAL_COLUMN)
      | _ \<Rightarrow> Inl ILLEGAL_COLUMN)"
| "executeTuple_loop F first tuple_types tuple_columns vec_to =
     (case tuple_columns of
        [] \<Rightarrow> Inr vec_to
      | c # cs \<Rightarrow>
          (case tuple_types of
             [] \<Rightarrow> Inl LOGICAL_ERROR
           | t # ts \<Rightarrow>
               (case executeAny F first t c vec_to of
                  Inl e \<Rightarrow> Inl e
                | Inr vec \<Rightarrow> executeTuple_loop F first ts cs vec)))"
| "executeMap F first type column vec_to =
     (case type of
        TypeMap nested_type \<Rightarrow>
          (case column of
             ColumnMap nested_column \<Rightarrow> executeArray F first nested_type nested_column vec_to
           | ColumnConst d s \<Rightarrow>
               (case d of
                  ColumnMap nested_column \<Rightarrow>
                    executeMap F first type (convertToFullColumn column) vec_to
                | _ \<Rightarrow> Inl ILLEGAL_COLUMN)
           | _ \<Rightarrow> Inl ILLEGAL_COLUMN)
      | _ \<Rightarrow> Inl LOGICAL_ERROR)"
| "executeByteMap F first type column vec_to =
     (case type of
        TypeByteMap nested_type \<Rightarrow>
          (case column of
             ColumnByteMap nested_column \<Rightarrow> executeArray F first nested_type nested_column vec_to
           | ColumnConst d s \<Rightarrow>
               (case d of
                  ColumnMap nested_column \<Rightarrow>
                    executeByteMap F first type (convertToFullColumn column) vec_to
                | _ \<Rightarrow> Inl ILLEGAL_COLUMN)
           | _ \<Rightarrow> Inl ILLEGAL_COLUMN)
      | _ \<Rightarrow> Inl LOGICAL_ERROR)"
  by pat_completeness auto
termination
proof (relation "measure (\<lambda>x. case x of
      Inl (Inl (F, first, ty, col, vec)) \<Rightarrow> 4 * size ty + 3
    | Inl (Inr (Inl (F, first, ty, col, vec))) \<Rightarrow>
        4 * size ty + (case col of ColumnConst d s \<Rightarrow> 2 | _ \<Rightarrow> 1)
    | Inl (Inr (Inr (F, first, ty, col, vec))) \<Rightarrow> 4 * size ty + 1
    | Inr (Inl (F, first, tys, cols, vec)) \<Rightarrow> 4 * size (TypeTuple tys)
    | Inr (Inr (Inl (F, first, ty, col, vec))) \<Rightarrow>
        4 * size ty + (case col of ColumnConst d s \<Rightarrow> 2 | _ \<Rightarrow> 1)
    | Inr (Inr (Inr (F, first, ty, col, vec))) \<Rightarrow>
        4 * size ty + (case col of ColumnConst d s \<Rightarrow> 2 | _ \<Rightarrow> 1))", goal_cases)
  case 1
  show ?case by simp
qed (auto split: column.splits)

declare executeAny.simps [simp del] executeArray.simps [simp del] executeTuple.simps [simp del]
  executeTuple_loop.simps [simp del] executeMap.simps [simp del] executeByteMap.simps [simp del]

text \<open>
  \<open>executeForArgument\<close>: the flattening of tuples at the argument loop. The state is the
  container and the flag \<open>is_first\<close>, which \<open>executeForArgument\<close> clears before it
  returns. The recursion descends into the columns of a tuple; \<open>tuple_weight\<close> measures it.
\<close>

fun tuple_weight :: "column \<Rightarrow> nat" where
  "tuple_weight (ColumnTuple cs) = 1 + sum_list (map (\<lambda>c. tuple_weight c + 1) cs)"
| "tuple_weight (ColumnConst c s) = tuple_weight c"
| "tuple_weight (ColumnVector t vs) = 0"
| "tuple_weight (ColumnString chars offsets) = 0"
| "tuple_weight (ColumnFixedString n chars) = 0"
| "tuple_weight (ColumnArray d offsets) = 0"
| "tuple_weight (ColumnMap c) = 0"
| "tuple_weight (ColumnByteMap c) = 0"
| "tuple_weight (ColumnOther rows) = 0"

definition executeForArgument_leaf ::
  "('w::len) word FunctionAnyHash \<Rightarrow> data_type \<Rightarrow> column \<Rightarrow> 'w word list \<times> bool
     \<Rightarrow> error + 'w word list \<times> bool" where
  "executeForArgument_leaf F type column st =
     (case st of (vec_to, is_first) \<Rightarrow>
        (case (if is_first then executeAny F True type column vec_to
               else executeAny F False type column vec_to) of
           Inl e \<Rightarrow> Inl e
         | Inr vec \<Rightarrow> Inr (vec, is_first)))"

function
  executeForArgument :: "('w::len) word FunctionAnyHash \<Rightarrow> data_type \<Rightarrow> column
     \<Rightarrow> 'w word list \<times> bool \<Rightarrow> error + 'w word list \<times> bool"
and executeForArgument_loop :: "('w::len) word FunctionAnyHash \<Rightarrow> data_type list \<Rightarrow> column list
     \<Rightarrow> 'w word list \<times> bool \<Rightarrow> error + 'w word list \<times> bool"
where
  "executeForArgument F type column st =
     (case (case column of
              ColumnTuple tuple_columns \<Rightarrow>
                (case type of
                   TypeTuple tuple_types \<Rightarrow> executeForArgument_loop F tuple_types tuple_columns st
                 | _ \<Rightarrow> Inl LOGICAL_ERROR)
            | ColumnConst d s \<Rightarrow>
                (case d of
                   ColumnTuple tuple_columns \<Rightarrow>
                     (case type of
                        TypeTuple tuple_types \<Rightarrow>
                          executeForArgument_loop F tuple_types
                            (map (\<lambda>c. ColumnConst c (column_size column)) tuple_columns) st
                      | _ \<Rightarrow> Inl LOGICAL_ERROR)
                 | _ \<Rightarrow> executeForArgument_leaf F type column st)
            | _ \<Rightarrow> executeForArgument_leaf F type column st) of
        Inl e \<Rightarrow> Inl e
      | Inr (vec_to, is_first) \<Rightarrow> Inr (vec_to, False))"
| "executeForArgument_loop F tuple_types tuple_columns st =
     (case tuple_columns of
        [] \<Rightarrow> Inr st
      | c # cs \<Rightarrow>
          (case tuple_types of
             [] \<Rightarrow> Inl LOGICAL_ERROR
           | t # ts \<Rightarrow>
               (case executeForArgument F t c st of
                  Inl e \<Rightarrow> Inl e
                | Inr st' \<Rightarrow> executeForArgument_loop F ts cs st')))"
  by pat_completeness auto
termination
proof (relation "measure (\<lambda>x. case x of
      Inl (F, ty, col, st) \<Rightarrow> tuple_weight col
    | Inr (F, tys, cols, st) \<Rightarrow> sum_list (map (\<lambda>c. tuple_weight c + 1) cols))", goal_cases)
  case 1
  show ?case by simp
qed (auto simp: comp_def)

declare executeForArgument.simps [simp del] executeForArgument_loop.simps [simp del]

text \<open>
  \<open>FunctionAnyHash::getReturnTypeImpl\<close> and \<open>executeImpl\<close>. An argument is its type with
  its column. \<open>executeImpl\<close> first reads the seed, then runs \<open>execute_arguments\<close>, the rest of
  its body, on the first \<open>size\<close> arguments. \<open>arguments.back()\<close> needs an argument;
  \<open>getReturnTypeImpl\<close> has refused the empty list of a function with a seed before.
\<close>

definition isUnsignedInteger :: "data_type \<Rightarrow> bool" where
  "isUnsignedInteger t =
     (t \<in> {TypeNumber UInt8, TypeNumber UInt16, TypeNumber UInt32, TypeNumber UInt64,
            TypeNumber UInt128, TypeNumber UInt256})"

definition getReturnTypeImpl :: "('w::len) word FunctionAnyHash \<Rightarrow> data_type list \<Rightarrow> error + unit" where
  "getReturnTypeImpl F arguments =
     (if with_seed F then
        (if arguments = [] then Inl NUMBER_OF_ARGUMENTS_DOESNT_MATCH
         else if \<not> isUnsignedInteger (last arguments) then Inl ILLEGAL_TYPE_OF_ARGUMENT
         else Inr ())
      else Inr ())"

definition execute_arguments ::
  "('w::len) word FunctionAnyHash \<Rightarrow> (data_type \<times> column) list \<Rightarrow> nat \<Rightarrow> nat
     \<Rightarrow> error + 'w word list" where
  "execute_arguments F arguments sz input_rows_count =
     (let rows = input_rows_count;
          vec_to = new_container F rows;
          vec_to = (if sz = 0 then replicate rows (ucast (0xe28dbde7fe22e41c :: 64 word))
                    else vec_to)
      in case for_loop [0..<sz]
                (\<lambda>i st. executeForArgument F (fst (arguments ! i)) (snd (arguments ! i)) st)
                (vec_to, True) of
           Inl e \<Rightarrow> Inl e
         | Inr (vec, is_first_argument) \<Rightarrow> Inr vec)"

definition executeImpl ::
  "('w::len) word FunctionAnyHash \<Rightarrow> (data_type \<times> column) list \<Rightarrow> nat \<Rightarrow> error + 'w word list" where
  "executeImpl F arguments input_rows_count =
     (let sz = length arguments in
      if with_seed F then
        (case snd (last arguments) of
           ColumnConst d s \<Rightarrow>
             execute_arguments (F\<lparr>seed := getValue_UInt32 F d\<rparr>) arguments (sz - 1) input_rows_count
         | _ \<Rightarrow> Inl LOGICAL_ERROR)
      else execute_arguments F arguments sz input_rows_count)"






text \<open>
  The three policies that cannot combine. None has an \<open>apply\<close> with a seed, and none is
  instantiated with \<open>with_seed\<close>; the field repeats the one without.
\<close>

definition JavaHashImpl :: "32 word Impl" where
  "JavaHashImpl =
     \<lparr> hash_apply = (\<lambda>data. Inr (JavaHashImpl_apply data)),
       hash_apply_seed = (\<lambda>data s. Inr (JavaHashImpl_apply data)),
       combineHashes = (\<lambda>h1 h2. Inl NOT_IMPLEMENTED),
       use_int_hash_for_pods = False \<rparr>"



section \<open>Columns and instances for stating the properties\<close>

text \<open>
  A dense column of \<open>n\<close> rows each holding \<open>v\<close>, and the constant column of \<open>n\<close> rows
  holding \<open>v\<close>: for a numeric type (the element type is the one \<open>executeAny\<close> expects), for
  \<open>String\<close> (each row closed by a zero byte) and for \<open>FixedString\<close> of the length of \<open>v\<close>.
  \<open>same_rows n c d\<close>: where the traversal \<open>c\<close> returns a container, \<open>d\<close> returns the same
  one; where \<open>c\<close> throws, \<open>d\<close> throws the same error, unless there is no row at all and
  \<open>d\<close> had nothing to hash.
\<close>

definition dense_number :: "num_type \<Rightarrow> nat \<Rightarrow> bytes \<Rightarrow> column" where
  "dense_number t n v = ColumnVector (snd (number_dispatch t)) (replicate n v)"
definition const_number :: "num_type \<Rightarrow> nat \<Rightarrow> bytes \<Rightarrow> column" where
  "const_number t n v = ColumnConst (ColumnVector (snd (number_dispatch t)) [v]) n"
definition dense_string :: "nat \<Rightarrow> bytes \<Rightarrow> column" where
  "dense_string n v =
     ColumnString (concat (replicate n (v @ [0]))) (map (\<lambda>i. (i + 1) * (length v + 1)) [0..<n])"
definition const_string :: "nat \<Rightarrow> bytes \<Rightarrow> column" where
  "const_string n v = ColumnConst (ColumnString (v @ [0]) [length v + 1]) n"
definition dense_fixed_string :: "nat \<Rightarrow> bytes \<Rightarrow> column" where
  "dense_fixed_string n v = ColumnFixedString (length v) (concat (replicate n v))"
definition const_fixed_string :: "nat \<Rightarrow> bytes \<Rightarrow> column" where
  "const_fixed_string n v = ColumnConst (ColumnFixedString (length v) v) n"

definition same_rows :: "nat \<Rightarrow> error + 'a list \<Rightarrow> error + 'a list \<Rightarrow> bool" where
  "same_rows n c d =
     (case c of Inr r \<Rightarrow> d = Inr r | Inl e \<Rightarrow> (if n = 0 then d = Inr [] else d = Inl e))"

text \<open>
  Two instances for the examples. \<open>example_javaHash\<close> is \<open>javaHash\<close>. \<open>example_seeded\<close> is a
  function with a seed over a small combinable policy. The parameters of the engine are
  set to simple functions.
\<close>

definition example_javaHash :: "32 word FunctionAnyHash" where
  "example_javaHash =
     \<lparr> Impl = JavaHashImpl, with_seed = False, seed = 0,
       intHash32 = (\<lambda>salt x. ucast (x XOR salt)), intHash64 = (\<lambda>x. x),
       getDataAt = (\<lambda>c i. []), getValue_UInt32 = (\<lambda>c. 0), uninitialized = (\<lambda>i. 0) \<rparr>"

definition example_seeded :: "64 word FunctionAnyHash" where
  "example_seeded =
     \<lparr> Impl = \<lparr> hash_apply = (\<lambda>data. Inr (of_nat (length data))),
                hash_apply_seed = (\<lambda>data s. Inr (ucast s + of_nat (length data))),
                combineHashes = (\<lambda>h1 h2. Inr (31 * h1 + h2)),
                use_int_hash_for_pods = False \<rparr>,
       with_seed = True, seed = 0,
       intHash32 = (\<lambda>salt x. ucast (x XOR salt)), intHash64 = (\<lambda>x. x),
       getDataAt = (\<lambda>c i. []),
       getValue_UInt32 = (\<lambda>c. case c of ColumnVector t (v # vs) \<Rightarrow> bit_cast_UInt32 v | _ \<Rightarrow> 0),
       uninitialized = (\<lambda>i. 0) \<rparr>"

text \<open>
  The reading of an array row's digest: the hash of the element count, assigned (first
  unit) or combined into the accumulator (later unit), then every element digest combined
  in, in ascending index order; an error ends it. \<open>array_row_elements\<close> are the digests
  of row \<open>i\<close> among those of all elements, between the offset before the row and the
  offset after it. \<open>first_error\<close> collects the rows in order up to the first error.
\<close>

definition combine_all ::
  "('w::len) word FunctionAnyHash \<Rightarrow> error + 'w word \<Rightarrow> 'w word list \<Rightarrow> error + 'w word" where
  "combine_all F start elems =
     foldl (\<lambda>r x. case r of Inl e \<Rightarrow> Inl e | Inr h \<Rightarrow> combineHashes (Impl F) h x) start elems"

definition array_row_digest ::
  "('w::len) word FunctionAnyHash \<Rightarrow> bool \<Rightarrow> 'w word \<Rightarrow> 'w word list \<Rightarrow> error + 'w word" where
  "array_row_digest F first acc elems =
     combine_all F
       (if first then Inr (int_hash_count F (length elems))
        else combineHashes (Impl F) acc (int_hash_count F (length elems)))
       elems"

fun first_error :: "(error + 'a) list \<Rightarrow> error + 'a list" where
  "first_error [] = Inr []"
| "first_error (Inl e # rs) = Inl e"
| "first_error (Inr x # rs) = (case first_error rs of Inl e \<Rightarrow> Inl e | Inr xs \<Rightarrow> Inr (x # xs))"

definition offset_before :: "nat list \<Rightarrow> nat \<Rightarrow> nat" where
  "offset_before offsets i = (if i = 0 then 0 else offsets ! (i - 1))"

definition array_row_elements :: "nat list \<Rightarrow> 'a list \<Rightarrow> nat \<Rightarrow> 'a list" where
  "array_row_elements offsets vec_temp i = map ((!) vec_temp) [offset_before offsets i..<offsets ! i]"

text \<open>
  The reading of the flattening: the units of an argument are the argument itself, or,
  for a tuple column, the units of its fields in declaration order, nested tuples
  included; the fields of a constant tuple are constants of the same number of rows.
  The units are defined where every tuple column has a tuple type with as many fields
  and at least one field, as every tuple of the engine has. \<open>run_units\<close> runs
  \<open>executeForArgument\<close> on a list of arguments in order, as the argument loop does.
\<close>

function
  flatten_argument :: "data_type \<Rightarrow> column \<Rightarrow> (data_type \<times> column) list option"
and flatten_fields :: "data_type list \<Rightarrow> column list \<Rightarrow> (data_type \<times> column) list option"
where
  "flatten_argument type column =
     (case column of
        ColumnTuple cs \<Rightarrow>
          (case type of
             TypeTuple tys \<Rightarrow> if cs = [] then None else flatten_fields tys cs
           | _ \<Rightarrow> None)
      | ColumnConst d s \<Rightarrow>
          (case d of
             ColumnTuple cs \<Rightarrow>
               (case type of
                  TypeTuple tys \<Rightarrow>
                    if cs = [] then None
                    else flatten_fields tys (map (\<lambda>c. ColumnConst c s) cs)
                | _ \<Rightarrow> None)
           | _ \<Rightarrow> Some [(type, column)])
      | _ \<Rightarrow> Some [(type, column)])"
| "flatten_fields tys cols =
     (case cols of
        [] \<Rightarrow> (case tys of [] \<Rightarrow> Some [] | _ \<Rightarrow> None)
      | c # cs \<Rightarrow>
          (case tys of
             [] \<Rightarrow> None
           | t # ts \<Rightarrow>
               (case flatten_argument t c of
                  None \<Rightarrow> None
                | Some units \<Rightarrow>
                    (case flatten_fields ts cs of
                       None \<Rightarrow> None
                     | Some others \<Rightarrow> Some (units @ others)))))"
  by pat_completeness auto
termination
proof (relation "measure (\<lambda>x. case x of
      Inl (ty, col) \<Rightarrow> tuple_weight col
    | Inr (tys, cols) \<Rightarrow> sum_list (map (\<lambda>c. tuple_weight c + 1) cols))", goal_cases)
  case 1
  show ?case by simp
qed (auto simp: comp_def)

declare flatten_argument.simps [simp del] flatten_fields.simps [simp del]

fun flatten_arguments :: "(data_type \<times> column) list \<Rightarrow> (data_type \<times> column) list option" where
  "flatten_arguments [] = Some []"
| "flatten_arguments ((t, c) # rest) =
     (case flatten_argument t c of
        None \<Rightarrow> None
      | Some units \<Rightarrow>
          (case flatten_arguments rest of None \<Rightarrow> None | Some others \<Rightarrow> Some (units @ others)))"

fun run_units ::
  "('w::len) word FunctionAnyHash \<Rightarrow> (data_type \<times> column) list \<Rightarrow> 'w word list \<times> bool
     \<Rightarrow> error + 'w word list \<times> bool" where
  "run_units F [] st = Inr st"
| "run_units F ((t, c) # rest) st =
     (case executeForArgument F t c st of Inl e \<Rightarrow> Inl e | Inr st' \<Rightarrow> run_units F rest st')"

definition is_tuple_column :: "column \<Rightarrow> bool" where
  "is_tuple_column c =
     (case c of ColumnTuple cs \<Rightarrow> True
      | ColumnConst d s \<Rightarrow> (case d of ColumnTuple cs \<Rightarrow> True | _ \<Rightarrow> False)
      | _ \<Rightarrow> False)"

section \<open>Calls of the hashes that do not combine\<close>









section \<open>Properties of the Java-compatible hashes\<close>

lemma hive_bit31: "\<not> bit (0x7FFFFFFF AND (x :: 32 word)) 31"
  by (simp add: bit_simps)

text \<open>
  Claim C9: for every byte buffer, \<open>hiveHash\<close>'s per-buffer hash is the Java-compatible
  hash of the same bytes with the sign bit cleared (\<open>javaHash(bytes) & 0x7FFFFFFF\<close>),
  and read as a signed 32-bit integer it is never negative.
\<close>

theorem HiveHashImpl_apply_nonneg:
  "HiveHashImpl_apply data = JavaHashImpl_apply data AND 0x7FFFFFFF
    \<and> 0 \<le> sint (HiveHashImpl_apply data)"
proof
  show "HiveHashImpl_apply data = JavaHashImpl_apply data AND 0x7FFFFFFF"
    by (simp add: HiveHashImpl_apply_def and.commute)
  have "\<not> sint (HiveHashImpl_apply data) < 0"
    using hive_bit31 [of "JavaHashImpl_apply data"] bit_last_iff [of "HiveHashImpl_apply data"]
    by (simp add: HiveHashImpl_apply_def)
  then show "0 \<le> sint (HiveHashImpl_apply data)" by simp
qed

theorem HiveHashImpl_apply_nonneg_witness:
  "HiveHashImpl_apply [0xFF] = JavaHashImpl_apply [0xFF] AND 0x7FFFFFFF
    \<and> 0 \<le> sint (HiveHashImpl_apply [0xFF])
    \<and> sint (JavaHashImpl_apply [0xFF]) = - 1"
  using HiveHashImpl_apply_nonneg [of "[0xFF]"] by (simp add: JavaHashImpl_apply_def)

lemma bom_test:
  "(length raw \<ge> 2 \<and> raw ! 0 = 0xFF \<and> raw ! 1 = 0xFE) \<longleftrightarrow> take 2 raw = [0xFF, 0xFE :: 8 word]"
proof (cases raw)
  case Nil
  then show ?thesis by simp
next
  case (Cons a r)
  then show ?thesis by (cases r) auto
qed

lemma utf16_loop_foldl:
  "even (length data) \<Longrightarrow> even i \<Longrightarrow>
   utf16_loop data (length data) i h = foldl utf16_step h (utf16le_units (drop i data))"
proof (induction data "length data" i h rule: utf16_loop.induct)
  case (1 data i h)
  show ?case
  proof (cases "i < length data")
    case True
    with 1(2,3) have lt: "Suc i < length data" by presburger
    have d: "drop i data = data ! i # data ! (i + 1) # drop (i + 2) data"
      using True lt by (simp add: Cons_nth_drop_Suc)
    have "utf16_loop data (length data) i h =
          utf16_loop data (length data) (i + 2)
             (31 * h + ucast ((ucast (data ! i) OR push_bit 8 (ucast (data ! (i + 1)))) :: 16 word))"
      using True by (subst utf16_loop.simps) simp
    also have "\<dots> = foldl utf16_step (31 * h + ucast ((ucast (data ! i) OR push_bit 8 (ucast (data ! (i + 1)))) :: 16 word))
          (utf16le_units (drop (i + 2) data))"
      using 1(1) [OF True] 1(2,3) by simp
    finally show ?thesis by (simp add: d utf16_step_def)
  next
    case False
    then show ?thesis by (subst utf16_loop.simps) simp
  qed
qed

lemma java_string_hashCode_Cons:
  "java_string_hashCode (c # cs) = ucast c * 31 ^ length cs + java_string_hashCode cs"
proof -
  have "[0..<Suc (length cs)] = 0 # map Suc [0..<length cs]"
    by (simp add: upt_conv_Cons map_Suc_upt del: upt_Suc)
  then show ?thesis
    by (simp add: java_string_hashCode_def comp_def del: upt_Suc)
qed

lemma foldl_utf16_step:
  "foldl utf16_step h cs = h * 31 ^ length cs + java_string_hashCode cs"
proof (induction cs arbitrary: h)
  case Nil
  show ?case by (simp add: java_string_hashCode_def)
next
  case (Cons c cs)
  have "foldl utf16_step h (c # cs) = foldl utf16_step (utf16_step h c) cs" by simp
  also have "\<dots> = utf16_step h c * 31 ^ length cs + java_string_hashCode cs" by (rule Cons)
  finally have "foldl utf16_step h (c # cs) = utf16_step h c * 31 ^ length cs + java_string_hashCode cs" .
  moreover have "utf16_step h c * 31 ^ length cs = h * 31 ^ length (c # cs) + ucast c * 31 ^ length cs"
    by (simp add: utf16_step_def algebra_simps)
  ultimately show ?case
    by (simp only: java_string_hashCode_Cons add.assoc)
qed

lemma JavaHashUTF16LEImpl_apply_strip:
  "JavaHashUTF16LEImpl_apply raw =
     (if length (strip_bom raw) mod 2 \<noteq> 0 then Inl BAD_ARGUMENTS
      else Inr (utf16_loop (strip_bom raw) (length (strip_bom raw)) 0 0))"
  unfolding JavaHashUTF16LEImpl_apply_def strip_bom_def bom_test
  by (simp add: Let_def)

lemma odd_mod2: "odd (n::nat) \<longleftrightarrow> n mod 2 \<noteq> 0"
  by presburger

text \<open>
  Claim C10: \<open>javaHashUTF16LE\<close>'s per-buffer hash first removes a leading UTF-16LE
  byte-order mark (the two bytes 0xFF 0xFE) when present. If the remaining length is odd
  it raises the bad-arguments error and returns no value; otherwise it returns the Java
  string hash of the little-endian 16-bit code units of the remaining bytes.
\<close>

theorem JavaHashUTF16LEImpl_apply_spec:
  "JavaHashUTF16LEImpl_apply raw =
     (if odd (length (strip_bom raw)) then Inl BAD_ARGUMENTS
      else Inr (java_string_hashCode (utf16le_units (strip_bom raw))))"
proof (cases "odd (length (strip_bom raw))")
  case True
  then show ?thesis
    unfolding JavaHashUTF16LEImpl_apply_strip odd_mod2 by simp
next
  case False
  then have "utf16_loop (strip_bom raw) (length (strip_bom raw)) 0 0
       = java_string_hashCode (utf16le_units (strip_bom raw))"
    by (simp add: utf16_loop_foldl foldl_utf16_step)
  with False show ?thesis
    unfolding JavaHashUTF16LEImpl_apply_strip odd_mod2 by simp
qed

theorem JavaHashUTF16LEImpl_apply_spec_witness:
  "JavaHashUTF16LEImpl_apply [0xFF, 0xFE, 0x41, 0x00, 0x42, 0x00] = Inr 2081
   \<and> JavaHashUTF16LEImpl_apply [0xFF, 0xFE, 0x41] = Inl BAD_ARGUMENTS
   \<and> JavaHashUTF16LEImpl_apply [0x41, 0x00] = Inr 65"
  using JavaHashUTF16LEImpl_apply_spec [of "[0xFF, 0xFE, 0x41, 0x00, 0x42, 0x00]"]
    JavaHashUTF16LEImpl_apply_spec [of "[0xFF, 0xFE, 0x41]"]
    JavaHashUTF16LEImpl_apply_spec [of "[0x41, 0x00]"]
  by (simp add: strip_bom_def java_string_hashCode_def)

section \<open>Properties of URL hashing\<close>











lemma URLHashImpl_apply_whole:
  "URLHashImpl_apply CityHash64 s (length s) =
     (if s \<noteq> [] \<and> is_url_sep (last s) then CityHash64 (butlast s) else CityHash64 s)"
proof (cases "s = []")
  case True
  then show ?thesis by (simp add: URLHashImpl_apply_def)
next
  case False
  then have "s ! (length s - 1) = last s" by (simp add: last_conv_nth)
  with False show ?thesis by (simp add: URLHashImpl_apply_def butlast_conv_take)
qed


text \<open>
  Claim C6: for every non-empty input whose last byte is \<open>/\<close>, \<open>?\<close> or \<open>#\<close> the URL
  byte-hash is the byte-hash of the input without that one byte (a second trailing
  separator stays, as for \<open>a//\<close>); every other input, the empty one included, is hashed
  whole; so \<open>URLHash("http://x/")\<close> equals \<open>URLHash("http://x")\<close>.
\<close>

theorem URLHashImpl_apply_trailing_separator:
  "URLHashImpl_apply CityHash64 s (length s) =
     (if s \<noteq> [] \<and> last s \<in> {of_char CHR ''/'', of_char CHR ''?'', of_char CHR ''#''}
      then CityHash64 (butlast s) else CityHash64 s)
   \<and> URLHashImpl_apply CityHash64 (bytes_of ''a//'') (length (bytes_of ''a//''))
       = CityHash64 (bytes_of ''a/'')
   \<and> URLHashImpl_apply CityHash64 [] 0 = CityHash64 []
   \<and> URLHashImpl_apply CityHash64 (bytes_of ''http://x/'') (length (bytes_of ''http://x/''))
       = URLHashImpl_apply CityHash64 (bytes_of ''http://x'') (length (bytes_of ''http://x''))"
proof (intro conjI)
  show "URLHashImpl_apply CityHash64 s (length s) =
     (if s \<noteq> [] \<and> last s \<in> {of_char CHR ''/'', of_char CHR ''?'', of_char CHR ''#''}
      then CityHash64 (butlast s) else CityHash64 s)"
    unfolding URLHashImpl_apply_whole by (simp add: is_url_sep_def)
  show "URLHashImpl_apply CityHash64 (bytes_of ''a//'') (length (bytes_of ''a//''))
       = CityHash64 (bytes_of ''a/'')"
    unfolding URLHashImpl_apply_whole by (simp add: is_url_sep_def bytes_of_def)
  show "URLHashImpl_apply CityHash64 [] 0 = CityHash64 []"
    by (simp add: URLHashImpl_apply_def)
  show "URLHashImpl_apply CityHash64 (bytes_of ''http://x/'') (length (bytes_of ''http://x/''))
       = URLHashImpl_apply CityHash64 (bytes_of ''http://x'') (length (bytes_of ''http://x''))"
    unfolding URLHashImpl_apply_whole by (simp add: is_url_sep_def bytes_of_def)
qed

theorem URLHashImpl_apply_trailing_separator_witness:
  "URLHashImpl_apply (\<lambda>bs. of_nat (length bs)) (bytes_of ''ab?'') (length (bytes_of ''ab?'')) = 2
   \<and> URLHashImpl_apply (\<lambda>bs. of_nat (length bs)) (bytes_of ''ab'') (length (bytes_of ''ab'')) = 2"
  using URLHashImpl_apply_trailing_separator [of "\<lambda>bs. of_nat (length bs)" "bytes_of ''ab?''"]
    URLHashImpl_apply_trailing_separator [of "\<lambda>bs. of_nat (length bs)" "bytes_of ''ab''"]
  by (simp add: bytes_of_def)







section \<open>Constant columns\<close>

lemma for_loop_cong:
  "(\<And>i st. i \<in> set idx \<Longrightarrow> body1 i st = body2 i st) \<Longrightarrow> for_loop idx body1 st = for_loop idx body2 st"
  by (induction idx arbitrary: st) (auto split: sum.splits)

lemma for_loop_pure: "for_loop idx (\<lambda>i st. Inr (g i st)) st = Inr (fold g idx st)"
  by (induction idx arbitrary: st) auto

lemma for_loop_append:
  "for_loop (xs @ ys) body st =
     (case for_loop xs body st of Inl e \<Rightarrow> Inl e | Inr st' \<Rightarrow> for_loop ys body st')"
  by (induction xs arbitrary: st) (auto split: sum.splits)

lemma fold_assign_upt:
  "k \<le> length vec \<Longrightarrow> fold (\<lambda>i v. v[i := h]) [0..<k] vec = replicate k h @ drop k vec"
proof (induction k)
  case 0
  show ?case by simp
next
  case (Suc k)
  then have k: "k < length vec" by simp
  have "fold (\<lambda>i v. v[i := h]) [0..<Suc k] vec = (replicate k h @ drop k vec)[k := h]"
    using Suc by simp
  also have "\<dots> = replicate k h @ (drop k vec)[0 := h]"
    by (simp add: list_update_append)
  also have "(drop k vec)[0 := h] = h # drop (Suc k) vec"
    using k by (simp add: Cons_nth_drop_Suc [symmetric])
  finally show ?case by (simp add: replicate_append_same)
qed

lemma hash_rows_cong:
  "(\<And>i. i < n \<Longrightarrow> f i = g i) \<Longrightarrow> hash_rows F first f n vec = hash_rows F first g n vec"
  unfolding hash_rows_def by (rule for_loop_cong) simp

lemma hash_rows_Inl:
  "0 < n \<Longrightarrow> hash_rows F first (\<lambda>i. Inl e) n vec = Inl e"
  unfolding hash_rows_def by (simp add: upt_conv_Cons)

lemma hash_rows_Inl0: "hash_rows F first f 0 vec = Inr vec"
  unfolding hash_rows_def by simp

lemma hash_rows_Inr:
  "length vec = n \<Longrightarrow> hash_rows F first (\<lambda>i. Inr h) n vec = hash_const F first h vec"
proof (cases first)
  case True
  assume "length vec = n"
  then show ?thesis using True
    by (simp add: hash_rows_def hash_const_def assign_or_combine_def for_loop_pure fold_assign_upt)
next
  case False
  assume "length vec = n"
  then show ?thesis using False
    by (simp add: hash_rows_def hash_const_def assign_or_combine_def)
qed

lemma hash_const_Nil: "hash_const F first h [] = Inr []"
  by (simp add: hash_const_def)

lemma hash_rows_const:
  assumes "length vec = n"
  shows "same_rows n (case r of Inl e \<Rightarrow> Inl e | Inr h \<Rightarrow> hash_const F first h vec)
           (hash_rows F first (\<lambda>i. r) n vec)"
proof (cases r)
  case (Inl e)
  then show ?thesis using assms
    by (cases "n = 0") (simp_all add: same_rows_def hash_rows_Inl hash_rows_Inl0)
next
  case (Inr h)
  show ?thesis
  proof (cases "n = 0")
    case True
    with assms Inr show ?thesis by (simp add: same_rows_def hash_rows_Inl0 hash_const_Nil)
  next
    case False
    with assms Inr show ?thesis by (simp add: same_rows_def hash_rows_Inr split: sum.splits)
  qed
qed

lemma drop_concat_replicate:
  "k \<le> n \<Longrightarrow> drop (k * length x) (concat (replicate n x)) = concat (replicate (n - k) x)"
proof (induction k arbitrary: n)
  case 0
  show ?case by simp
next
  case (Suc k)
  then obtain m where m: "n = Suc m" by (cases n) auto
  with Suc show ?case by simp
qed

lemma byte_run_concat_replicate:
  "i < n \<Longrightarrow> byte_run (concat (replicate n x)) (i * length x) (length x) = x"
proof -
  assume i: "i < n"
  then obtain m where m: "n - i = Suc m" by (cases "n - i") auto
  show ?thesis
    unfolding byte_run_def using i by (simp add: drop_concat_replicate m)
qed

lemma c7_number:
  assumes "length vec_to = n"
  shows "same_rows n (executeAny F first (TypeNumber t) (const_number t n v) vec_to)
           (executeAny F first (TypeNumber t) (dense_number t n v) vec_to)"
proof -
  obtain b ft where d: "number_dispatch t = (b, ft)" by (cases "number_dispatch t")
  have r: "\<And>f. hash_rows F first (\<lambda>i. f (replicate n v ! i)) n vec_to = hash_rows F first (\<lambda>i. f v) n vec_to"
    by (rule hash_rows_cong) simp
  show ?thesis
  proof (cases b)
    case True
    have "executeAny F first (TypeNumber t) (dense_number t n v) vec_to
        = hash_rows F first (\<lambda>i. pod_hash F v) n vec_to"
      using d True by (simp add: executeAny.simps executeIntType_def dense_number_def r)
    moreover have "executeAny F first (TypeNumber t) (const_number t n v) vec_to
        = (case pod_hash F v of Inl e \<Rightarrow> Inl e | Inr h \<Rightarrow> hash_const F first h vec_to)"
      using d True by (simp add: executeAny.simps executeIntType_def const_number_def)
    ultimately show ?thesis using hash_rows_const [OF assms] by simp
  next
    case False
    have "executeAny F first (TypeNumber t) (dense_number t n v) vec_to
        = hash_rows F first (\<lambda>i. applyWithSeed F v) n vec_to"
      using d False by (simp add: executeAny.simps executeBigIntType_def dense_number_def r)
    moreover have "executeAny F first (TypeNumber t) (const_number t n v) vec_to
        = (case applyWithSeed F v of Inl e \<Rightarrow> Inl e | Inr h \<Rightarrow> hash_const F first h vec_to)"
      using d False by (simp add: executeAny.simps executeBigIntType_def const_number_def)
    ultimately show ?thesis using hash_rows_const [OF assms] by simp
  qed
qed


lemma byte_run_string_row:
  assumes "i < n"
  shows "byte_run (concat (replicate n (v @ [0]))) (i * (length v + 1)) (length v) = v"
proof -
  from assms obtain m where m: "n - i = Suc m" by (cases "n - i") auto
  have "drop (i * length (v @ [0])) (concat (replicate n (v @ [0]))) = concat (replicate (n - i) (v @ [0]))"
    using assms by (intro drop_concat_replicate) simp
  then show ?thesis unfolding byte_run_def by (simp add: m)
qed

lemma string_offset_row:
  "i < n \<Longrightarrow> map (\<lambda>i. (i + 1) * (length v + 1)) [0..<n] ! i - i * (length v + 1) - 1 = length v"
  by simp

lemma executeString_dense_loop:
  assumes w: "w = length v + 1"
    and data: "data = concat (replicate n (v @ [0]))"
    and offsets: "offsets = map (\<lambda>i. (i + 1) * w) [0..<n]"
  shows "k \<le> n \<Longrightarrow>
    for_loop [k..<n]
      (\<lambda>i (current_offset, vec).
          case applyWithSeed F (byte_run data current_offset (offsets ! i - current_offset - 1)) of
            Inl e \<Rightarrow> Inl e
          | Inr h \<Rightarrow>
              (case assign_or_combine F first i h vec of
                 Inl e \<Rightarrow> Inl e
               | Inr vec' \<Rightarrow> Inr (offsets ! i, vec')))
      (k * w, vec)
    = (case for_loop [k..<n]
              (\<lambda>i vec. case applyWithSeed F v of Inl e \<Rightarrow> Inl e
                        | Inr h \<Rightarrow> assign_or_combine F first i h vec) vec of
         Inl e \<Rightarrow> Inl e
       | Inr vec' \<Rightarrow> Inr (n * w, vec'))"
    (is "_ \<Longrightarrow> for_loop _ ?B _ = (case for_loop _ ?C _ of Inl e \<Rightarrow> Inl e | Inr vec' \<Rightarrow> _)")
proof (induction "n - k" arbitrary: k vec)
  case 0
  then have "k = n" by simp
  then show ?case by simp
next
  case (Suc m)
  then have k: "k < n" by simp
  have u: "[k..<n] = k # [Suc k..<n]" using k by (simp add: upt_conv_Cons)
  have o: "offsets ! k = Suc k * w" using k by (simp add: offsets)
  have len: "offsets ! k - k * w - 1 = length v" by (simp add: o w)
  have "byte_run data (k * w) (length v) = v"
    unfolding data w using k by (rule byte_run_string_row)
  then have run: "byte_run data (k * w) (offsets ! k - k * w - 1) = v"
    by (simp only: len)
  have IH: "\<And>vec. for_loop [Suc k..<n] ?B (Suc k * w, vec)
    = (case for_loop [Suc k..<n] ?C vec of Inl e \<Rightarrow> Inl e | Inr vec' \<Rightarrow> Inr (n * w, vec'))"
    using Suc(1) [of "Suc k"] Suc(2) k by simp
  have step: "?B k (k * w, vec) =
     (case applyWithSeed F v of Inl e \<Rightarrow> Inl e
      | Inr h \<Rightarrow> (case assign_or_combine F first k h vec of
                   Inl e \<Rightarrow> Inl e | Inr vec' \<Rightarrow> Inr (Suc k * w, vec')))"
    unfolding prod.case o run [unfolded o] ..
  show ?case
  proof (cases "applyWithSeed F v")
    case (Inl e)
    then show ?thesis unfolding u for_loop.simps step by simp
  next
    case (Inr h)
    show ?thesis
    proof (cases "assign_or_combine F first k h vec")
      case (Inl e)
      then show ?thesis unfolding u for_loop.simps step Inr by simp
    next
      case r: (Inr vec')
      show ?thesis unfolding u for_loop.simps step Inr sum.case r IH ..
    qed
  qed
qed

lemma executeString_dense:
  "executeString F first (dense_string n v) vec_to = hash_rows F first (\<lambda>i. applyWithSeed F v) n vec_to"
proof -
  define w where "w = length v + 1"
  define data where "data = concat (replicate n (v @ [0]))"
  define offsets where "offsets = map (\<lambda>i. (i + 1) * w) [0..<n]"
  have n: "length offsets = n" by (simp add: offsets_def)
  have z: "(0::nat) = 0 * w" by simp
  have "executeString F first (ColumnString data offsets) vec_to
      = (case (case for_loop [0..<n]
              (\<lambda>i vec. case applyWithSeed F v of Inl e \<Rightarrow> Inl e
                        | Inr h \<Rightarrow> assign_or_combine F first i h vec) vec_to of
         Inl e \<Rightarrow> Inl e
       | Inr vec' \<Rightarrow> Inr (n * w, vec')) of
           Inl e \<Rightarrow> Inl e | Inr (current_offset, vec) \<Rightarrow> Inr vec)"
    unfolding executeString_def column.case n
    by (subst z, subst executeString_dense_loop [OF w_def data_def offsets_def]) simp_all
  also have "\<dots> = hash_rows F first (\<lambda>i. applyWithSeed F v) n vec_to"
    by (simp add: hash_rows_def split: sum.splits)
  finally show ?thesis by (simp add: dense_string_def data_def offsets_def w_def)
qed

lemma executeString_const:
  "executeString F first (const_string n v) vec_to =
     (case applyWithSeed F v of Inl e \<Rightarrow> Inl e | Inr h \<Rightarrow> hash_const F first h vec_to)"
  by (simp add: executeString_def const_string_def string_value_def byte_run_def)

lemma executeString_dense_fixed:
  assumes "v \<noteq> []"
  shows "executeString F first (dense_fixed_string n v) vec_to
     = hash_rows F first (\<lambda>i. applyWithSeed F v) n vec_to"
proof -
  have l: "length (concat (replicate n v)) = n * length v"
    by (induction n) simp_all
  have "hash_rows F first (\<lambda>i. applyWithSeed F (byte_run (concat (replicate n v)) (i * length v) (length v))) n vec_to
      = hash_rows F first (\<lambda>i. applyWithSeed F v) n vec_to"
    by (rule hash_rows_cong) (simp add: byte_run_concat_replicate)
  then show ?thesis using assms
    by (simp add: executeString_def dense_fixed_string_def l)
qed

lemma executeString_const_fixed:
  "executeString F first (const_fixed_string n v) vec_to =
     (case applyWithSeed F v of Inl e \<Rightarrow> Inl e | Inr h \<Rightarrow> hash_const F first h vec_to)"
  by (simp add: executeString_def const_fixed_string_def string_value_def byte_run_def)

text \<open>
  Claim C7: for every policy, every numeric, \<open>String\<close> or \<open>FixedString\<close> type and every
  value \<open>v\<close>, the traversal of the constant column of \<open>n\<close> rows holding \<open>v\<close> leaves in the
  container of \<open>n\<close> rows exactly what the traversal of the dense column of \<open>n\<close> rows each
  holding \<open>v\<close> leaves, as the first argument and as a later one: the value is hashed once
  and the one digest is assigned to or combined into every row.
\<close>

theorem constant_column_equals_dense_column:
  assumes "length vec_to = n"
  shows "same_rows n (executeAny F first (TypeNumber t) (const_number t n v) vec_to)
           (executeAny F first (TypeNumber t) (dense_number t n v) vec_to)
       \<and> same_rows n (executeAny F first TypeString (const_string n v) vec_to)
           (executeAny F first TypeString (dense_string n v) vec_to)
       \<and> (v \<noteq> [] \<longrightarrow>
            same_rows n (executeAny F first TypeFixedString (const_fixed_string n v) vec_to)
              (executeAny F first TypeFixedString (dense_fixed_string n v) vec_to))"
  using c7_number [OF assms] hash_rows_const [OF assms]
  by (simp add: executeAny.simps executeString_dense executeString_const
        executeString_dense_fixed executeString_const_fixed)

theorem constant_column_equals_dense_column_witness:
  "executeAny example_seeded False TypeString (const_string 2 (bytes_of ''ab'')) [5, 7]
     = Inr [157, 219]
   \<and> executeAny example_seeded False TypeString (dense_string 2 (bytes_of ''ab'')) [5, 7]
     = Inr [157, 219]
   \<and> executeAny example_seeded True (TypeNumber Date) (dense_number Date 2 [1, 0]) [5, 7]
     = Inr [2, 2]"
proof -
  have c: "executeAny example_seeded False TypeString (const_string 2 (bytes_of ''ab'')) [5, 7]
     = Inr [157, 219]"
    by (simp add: executeAny.simps executeString_const applyWithSeed_def example_seeded_def
        hash_const_def bytes_of_def numeral_2_eq_2)
  have d: "executeAny example_seeded True (TypeNumber Date) (const_number Date 2 [1, 0]) [5, 7]
     = Inr [2, 2]"
    by (simp add: executeAny.simps executeIntType_def const_number_def pod_hash_def
        applyWithSeed_def example_seeded_def hash_const_def numeral_2_eq_2)
  show ?thesis
    using constant_column_equals_dense_column [of "[5, 7]" 2 example_seeded False UInt8 "bytes_of ''ab''"]
      constant_column_equals_dense_column [of "[5, 7]" 2 example_seeded True Date "[1, 0]"] c d
    by (simp add: same_rows_def)
qed

section \<open>The argument list: no argument, and the seed\<close>

lemma execute_arguments_none:
  "execute_arguments F arguments 0 n = Inr (replicate n (ucast (0xe28dbde7fe22e41c :: 64 word)))"
  by (simp add: execute_arguments_def)

text \<open>
  Claim C3: for every number of rows \<open>n\<close>, a call of a variadic hash function with no
  argument but the seed, where the function has one, succeeds and returns \<open>n\<close> rows that
  all hold the reserved digest \<open>0xe28dbde7fe22e41c\<close> cast to the return type: that very
  value for a 64-bit return type, its low half \<open>0xfe22e41c\<close> for a 32-bit one, and never
  zero.
\<close>

theorem executeImpl_no_arguments:
  "(\<not> with_seed F \<longrightarrow>
      executeImpl F [] n = Inr (replicate n (ucast (0xe28dbde7fe22e41c :: 64 word))))
   \<and> (with_seed F \<longrightarrow>
        executeImpl F [(t, ColumnConst d s)] n
          = Inr (replicate n (ucast (0xe28dbde7fe22e41c :: 64 word))))
   \<and> (ucast (0xe28dbde7fe22e41c :: 64 word) :: 64 word) = 0xe28dbde7fe22e41c
   \<and> (ucast (0xe28dbde7fe22e41c :: 64 word) :: 32 word) = 0xfe22e41c
   \<and> (0xe28dbde7fe22e41c :: 64 word) \<noteq> 0 \<and> (0xfe22e41c :: 32 word) \<noteq> 0"
  by (simp add: executeImpl_def execute_arguments_none)

theorem executeImpl_no_arguments_witness:
  "executeImpl example_javaHash [] 3 = Inr [0xfe22e41c, 0xfe22e41c, 0xfe22e41c]
   \<and> executeImpl example_seeded [(TypeNumber UInt32, ColumnConst (ColumnVector UInt32 [[7, 0, 0, 0]]) 3)] 2
       = Inr [0xe28dbde7fe22e41c, 0xe28dbde7fe22e41c]"
proof -
  have a: "\<not> with_seed example_javaHash" by (simp add: example_javaHash_def)
  have b: "with_seed example_seeded" by (simp add: example_seeded_def)
  have r3: "replicate 3 x = [x, x, x]" for x :: "32 word" by (simp add: numeral_3_eq_3)
  have r2: "replicate 2 x = [x, x]" for x :: "64 word" by (simp add: numeral_2_eq_2)
  from a executeImpl_no_arguments [where F = example_javaHash and n = 3]
  have "executeImpl example_javaHash [] 3 = Inr (replicate 3 0xfe22e41c)" by simp
  moreover from b executeImpl_no_arguments [where F = example_seeded and t = "TypeNumber UInt32"
      and d = "ColumnVector UInt32 [[7, 0, 0, 0]]" and s = 3 and n = 2]
  have "executeImpl example_seeded [(TypeNumber UInt32, ColumnConst (ColumnVector UInt32 [[7, 0, 0, 0]]) 3)] 2
       = Inr (replicate 2 0xe28dbde7fe22e41c)" by simp
  ultimately show ?thesis by (simp only: r3 r2)
qed





section \<open>Arrays\<close>

lemma combine_all_Inl: "combine_all F (Inl e) elems = Inl e"
  by (induction elems) (simp_all add: combine_all_def)

lemma combine_all_Cons:
  "combine_all F (Inr h) (x # xs) = combine_all F (combineHashes (Impl F) h x) xs"
  by (simp add: combine_all_def)

lemma inner_loop:
  "k < length v \<Longrightarrow>
   for_loop js (\<lambda>j v. case combineHashes (Impl F) (v ! k) (vec_temp ! j) of
                       Inl e \<Rightarrow> Inl e | Inr c \<Rightarrow> Inr (v[k := c])) v
   = (case combine_all F (Inr (v ! k)) (map ((!) vec_temp) js) of
        Inl e \<Rightarrow> Inl e | Inr d \<Rightarrow> Inr (v[k := d]))"
proof (induction js arbitrary: v)
  case Nil
  then show ?case by (simp add: combine_all_def)
next
  case (Cons j js)
  show ?case
  proof (cases "combineHashes (Impl F) (v ! k) (vec_temp ! j)")
    case (Inl e)
    then show ?thesis by (simp add: combine_all_Cons combine_all_Inl)
  next
    case (Inr c)
    have "for_loop js (\<lambda>j v. case combineHashes (Impl F) (v ! k) (vec_temp ! j) of
                       Inl e \<Rightarrow> Inl e | Inr c \<Rightarrow> Inr (v[k := c])) (v[k := c])
       = (case combine_all F (Inr (v[k := c] ! k)) (map ((!) vec_temp) js) of
        Inl e \<Rightarrow> Inl e | Inr d \<Rightarrow> Inr (v[k := c, k := d]))"
      using Cons.prems by (intro Cons.IH) simp
    then show ?thesis using Inr Cons.prems by (simp add: combine_all_Cons split: sum.splits)
  qed
qed

lemma array_row_step:
  assumes "k < length vec"
  shows "(case assign_or_combine F first k (int_hash_count F (b - a)) vec of
            Inl e \<Rightarrow> Inl e
          | Inr vec1 \<Rightarrow>
              (case for_loop [a..<b]
                      (\<lambda>j v. case combineHashes (Impl F) (v ! k) (vec_temp ! j) of
                               Inl e \<Rightarrow> Inl e | Inr c \<Rightarrow> Inr (v[k := c]))
                      vec1 of
                 Inl e \<Rightarrow> Inl e
               | Inr vec2 \<Rightarrow> Inr (nxt, vec2)))
       = (case array_row_digest F first (vec ! k) (map ((!) vec_temp) [a..<b]) of
            Inl e \<Rightarrow> Inl e
          | Inr d \<Rightarrow> Inr (nxt, vec[k := d]))"
proof (cases first)
  case True
  have "for_loop [a..<b]
          (\<lambda>j v. case combineHashes (Impl F) (v ! k) (vec_temp ! j) of
                   Inl e \<Rightarrow> Inl e | Inr c \<Rightarrow> Inr (v[k := c]))
          (vec[k := int_hash_count F (b - a)])
      = (case combine_all F (Inr (int_hash_count F (b - a))) (map ((!) vec_temp) [a..<b]) of
           Inl e \<Rightarrow> Inl e | Inr d \<Rightarrow> Inr (vec[k := d]))"
    using assms inner_loop [of k "vec[k := int_hash_count F (b - a)]" "[a..<b]" F vec_temp]
    by (simp split: sum.splits)
  then show ?thesis using True
    by (simp add: assign_or_combine_def array_row_digest_def split: sum.splits)
next
  case False
  show ?thesis
  proof (cases "combineHashes (Impl F) (vec ! k) (int_hash_count F (b - a))")
    case (Inl e)
    then show ?thesis using False
      by (simp add: assign_or_combine_def array_row_digest_def combine_all_Inl)
  next
    case (Inr c)
    have "for_loop [a..<b]
          (\<lambda>j v. case combineHashes (Impl F) (v ! k) (vec_temp ! j) of
                   Inl e \<Rightarrow> Inl e | Inr c \<Rightarrow> Inr (v[k := c]))
          (vec[k := c])
      = (case combine_all F (Inr c) (map ((!) vec_temp) [a..<b]) of
           Inl e \<Rightarrow> Inl e | Inr d \<Rightarrow> Inr (vec[k := d]))"
      using assms inner_loop [of k "vec[k := c]" "[a..<b]" F vec_temp]
      by (simp split: sum.splits)
    then show ?thesis using False Inr
      by (simp add: assign_or_combine_def array_row_digest_def split: sum.splits)
  qed
qed

lemma executeArray_rows_loop:
  assumes n: "length offsets = n"
  shows "k \<le> n \<Longrightarrow> length vec = n \<Longrightarrow>
    for_loop [k..<n]
       (\<lambda>i (current_offset, vec).
          let next_offset = offsets ! i;
              h = int_hash_count F (next_offset - current_offset)
          in case assign_or_combine F first i h vec of
               Inl e \<Rightarrow> Inl e
             | Inr vec1 \<Rightarrow>
                 (case for_loop [current_offset..<next_offset]
                         (\<lambda>j v. case combineHashes (Impl F) (v ! i) (vec_temp ! j) of
                                  Inl e \<Rightarrow> Inl e
                                | Inr c \<Rightarrow> Inr (v[i := c]))
                         vec1 of
                    Inl e \<Rightarrow> Inl e
                  | Inr vec2 \<Rightarrow> Inr (offsets ! i, vec2)))
       (offset_before offsets k, vec)
     = (case first_error (map (\<lambda>i. array_row_digest F first (vec ! i)
                                      (array_row_elements offsets vec_temp i)) [k..<n]) of
          Inl e \<Rightarrow> Inl e
        | Inr ds \<Rightarrow> Inr (offset_before offsets n, take k vec @ ds))"
    (is "_ \<Longrightarrow> _ \<Longrightarrow> for_loop _ ?B _ = _")
proof (induction "n - k" arbitrary: k vec)
  case 0
  then have "k = n" by simp
  with 0 show ?case by simp
next
  case (Suc m)
  then have k: "k < n" by simp
  have u: "[k..<n] = k # [Suc k..<n]" using k by (simp add: upt_conv_Cons)
  have kv: "k < length vec" using k Suc by simp
  have ob: "offset_before offsets (Suc k) = offsets ! k" by (simp add: offset_before_def)
  have step: "?B k (offset_before offsets k, vec) =
      (case array_row_digest F first (vec ! k) (array_row_elements offsets vec_temp k) of
         Inl e \<Rightarrow> Inl e
       | Inr d \<Rightarrow> Inr (offsets ! k, vec[k := d]))"
    unfolding prod.case Let_def array_row_elements_def
    by (rule array_row_step [OF kv])
  show ?case
  proof (cases "array_row_digest F first (vec ! k) (array_row_elements offsets vec_temp k)")
    case (Inl e)
    then show ?thesis unfolding u for_loop.simps step by simp
  next
    case (Inr d)
    have IH: "for_loop [Suc k..<n] ?B (offset_before offsets (Suc k), vec[k := d])
      = (case first_error (map (\<lambda>i. array_row_digest F first (vec[k := d] ! i)
                                      (array_row_elements offsets vec_temp i)) [Suc k..<n]) of
          Inl e \<Rightarrow> Inl e
        | Inr ds \<Rightarrow> Inr (offset_before offsets n, take (Suc k) (vec[k := d]) @ ds))"
      using Suc(1) [of "Suc k" "vec[k := d]"] Suc(2,4) k by simp
    have same: "map (\<lambda>i. array_row_digest F first (vec[k := d] ! i)
                                      (array_row_elements offsets vec_temp i)) [Suc k..<n]
        = map (\<lambda>i. array_row_digest F first (vec ! i)
                                      (array_row_elements offsets vec_temp i)) [Suc k..<n]"
      by (rule map_cong) auto
    have tk: "take (Suc k) (vec[k := d]) = take k vec @ [d]"
      using kv by (simp add: take_Suc_conv_app_nth)
    show ?thesis
      unfolding u for_loop.simps step Inr sum.case list.map first_error.simps
      unfolding IH [unfolded ob] same tk
      by (simp split: sum.splits)
  qed
qed

lemma executeArray_rows_spec:
  assumes "length vec_to = length offsets"
  shows "executeArray_rows F first offsets vec_temp vec_to =
     first_error (map (\<lambda>i. array_row_digest F first (vec_to ! i)
                             (array_row_elements offsets vec_temp i)) [0..<length offsets])"
proof -
  have z: "(0::nat) = offset_before offsets 0" by (simp add: offset_before_def)
  show ?thesis
    unfolding executeArray_rows_def
    by (subst z, subst executeArray_rows_loop [OF refl]) (simp_all add: assms split: sum.splits)
qed

text \<open>
  Claim C1: for every array column and every row, the digest of the row is the hash of
  the row's element count through the fast-path integer hash (\<open>IntHash64Impl\<close> for a
  64-bit return type, \<open>IntHash32Impl\<close> otherwise), assigned (first unit) or combined into
  the accumulator (later unit), with the digests of the row's elements then combined in
  by \<open>combineHashes\<close> in ascending index order; the element digests come from the nested
  traversal of the element type with \<open>first\<close> semantics; a constant array column is
  replaced by its full column before this.
\<close>

theorem executeArray_row_digests:
  "(length vec_to = length offsets \<longrightarrow>
     executeArray F first (TypeArray nested_type) (ColumnArray nested_column offsets) vec_to =
       (case executeAny F True nested_type nested_column
               (new_container F (column_size nested_column)) of
          Inl e \<Rightarrow> Inl e
        | Inr vec_temp \<Rightarrow>
            first_error (map (\<lambda>i. array_row_digest F first (vec_to ! i)
                                    (array_row_elements offsets vec_temp i))
                           [0..<length offsets])))
   \<and> executeArray F first (TypeArray nested_type) (ColumnConst (ColumnArray d offs) s) vec_to =
       executeArray F first (TypeArray nested_type)
         (ColumnArray (repeat_column s d) (repeat_offsets s (column_size d) offs)) vec_to
   \<and> (int_hash_count G c :: 64 word) = IntHash64Impl_apply G (of_nat c)
   \<and> (int_hash_count H c :: 32 word) = IntHash32Impl_apply H (of_nat c)"
proof (intro conjI impI)
  assume "length vec_to = length offsets"
  then show "executeArray F first (TypeArray nested_type) (ColumnArray nested_column offsets) vec_to =
       (case executeAny F True nested_type nested_column
               (new_container F (column_size nested_column)) of
          Inl e \<Rightarrow> Inl e
        | Inr vec_temp \<Rightarrow>
            first_error (map (\<lambda>i. array_row_digest F first (vec_to ! i)
                                    (array_row_elements offsets vec_temp i))
                           [0..<length offsets]))"
    by (subst executeArray.simps) (simp add: executeArray_rows_spec split: sum.splits)
next
  show "executeArray F first (TypeArray nested_type) (ColumnConst (ColumnArray d offs) s) vec_to =
       executeArray F first (TypeArray nested_type)
         (ColumnArray (repeat_column s d) (repeat_offsets s (column_size d) offs)) vec_to"
    by (subst executeArray.simps) simp
next
  show "(int_hash_count G c :: 64 word) = IntHash64Impl_apply G (of_nat c)"
    by (simp add: int_hash_count_def)
next
  show "(int_hash_count H c :: 32 word) = IntHash32Impl_apply H (of_nat c)"
    by (simp add: int_hash_count_def)
qed


theorem executeArray_row_digests_witness:
  "executeArray example_seeded True (TypeArray TypeString)
      (ColumnArray (ColumnString (bytes_of ''ab'' @ [0] @ bytes_of ''c'' @ [0]) [3, 5]) [2]) [9]
     = Inr [0xDB890EC8C9A59B84]"
proof -
  let ?nested = "ColumnString (bytes_of ''ab'' @ [0] @ bytes_of ''c'' @ [0]) [3, 5]"
  have n: "executeAny example_seeded True TypeString ?nested
      (new_container example_seeded (column_size ?nested)) = Inr [2, 1]"
    by (simp add: executeAny.simps executeString_def applyWithSeed_def assign_or_combine_def
        byte_run_def example_seeded_def new_container_def bytes_of_def upt_conv_Cons)
  have r: "first_error (map (\<lambda>i. array_row_digest example_seeded True ([9] ! i)
              (array_row_elements [2] [2, 1] i)) [0..<length [2 :: nat]])
     = Inr [0xDB890EC8C9A59B84]"
    by (simp add: array_row_digest_def array_row_elements_def offset_before_def combine_all_def
        int_hash_count_def IntHash64Impl_apply_def example_seeded_def upt_conv_Cons)
  have "executeArray example_seeded True (TypeArray TypeString) (ColumnArray ?nested [2]) [9]
      = (case executeAny example_seeded True TypeString ?nested
               (new_container example_seeded (column_size ?nested)) of
          Inl e \<Rightarrow> Inl e
        | Inr vec_temp \<Rightarrow>
            first_error (map (\<lambda>i. array_row_digest example_seeded True ([9] ! i)
                                    (array_row_elements [2] vec_temp i))
                           [0..<length [2 :: nat]]))"
    by (rule executeArray_row_digests [THEN conjunct1, THEN mp]) simp
  also have "\<dots> = Inr [0xDB890EC8C9A59B84]"
    by (simp only: n sum.case r)
  finally show ?thesis .
qed

section \<open>Tuples at the argument loop\<close>

lemma run_units_append:
  "run_units F (xs @ ys) st =
     (case run_units F xs st of Inl e \<Rightarrow> Inl e | Inr st' \<Rightarrow> run_units F ys st')"
  by (induction xs arbitrary: st) (auto split: sum.splits)

lemma executeForArgument_clears:
  "executeForArgument F t c st = Inr (v, b) \<Longrightarrow> b = False"
  by (subst (asm) executeForArgument.simps) (auto split: sum.splits prod.splits)

lemma run_units_clears:
  "units \<noteq> [] \<Longrightarrow> run_units F units st = Inr (v, b) \<Longrightarrow> b = False"
proof (induction units arbitrary: st)
  case Nil
  then show ?case by simp
next
  case (Cons u units)
  obtain t c where u: "u = (t, c)" by (cases u)
  from Cons.prems(2) obtain st' where
    s: "executeForArgument F t c st = Inr st'" and r: "run_units F units st' = Inr (v, b)"
    by (auto simp: u split: sum.splits)
  show ?case
  proof (cases "units = []")
    case True
    with r have "st' = (v, b)" by simp
    with s show ?thesis using executeForArgument_clears by blast
  next
    case False
    then show ?thesis using Cons.IH r by blast
  qed
qed

lemma run_units_then_clear:
  assumes "units \<noteq> []"
  shows "(case run_units F units st of Inl e \<Rightarrow> Inl e | Inr (v, b) \<Rightarrow> Inr (v, False))
           = run_units F units st"
proof (cases "run_units F units st")
  case (Inl e)
  then show ?thesis by simp
next
  case (Inr st')
  obtain v b where st': "st' = (v, b)" by (cases st')
  with Inr assms have "b = False" using run_units_clears by blast
  with Inr st' show ?thesis by simp
qed

lemma flatten_nonempty:
  "flatten_argument t c = Some units \<Longrightarrow> units \<noteq> []"
  "flatten_fields tys cols = Some us \<Longrightarrow> cols \<noteq> [] \<Longrightarrow> us \<noteq> []"
proof (induction t c and tys cols arbitrary: units and us rule: flatten_argument_flatten_fields.induct)
  case (1 type column)
  from "1.prems" show ?case
    by (subst (asm) flatten_argument.simps)
       (auto split: column.splits data_type.splits if_splits dest: "1.IH")
next
  case (2 tys cols)
  from "2.prems" show ?case
    by (subst (asm) flatten_fields.simps)
       (auto split: list.splits option.splits dest: "2.IH"(1))
qed

lemma executeForArgument_flatten:
  "flatten_argument t c = Some units \<Longrightarrow> executeForArgument F t c st = run_units F units st"
  "flatten_fields tys cols = Some us \<Longrightarrow> executeForArgument_loop F tys cols st = run_units F us st"
proof (induction F t c st and F tys cols st arbitrary: units and us
    rule: executeForArgument_executeForArgument_loop.induct)
  case (1 F type column st)
  show ?case
  proof (cases "is_tuple_column column")
    case False
    then have u: "units = [(type, column)]"
      using "1.prems"
      by (subst (asm) flatten_argument.simps)
         (auto simp: is_tuple_column_def split: column.splits data_type.splits if_splits)
    have "executeForArgument F type column st =
        (case executeForArgument_leaf F type column st of
           Inl e \<Rightarrow> Inl e | Inr (vec_to, is_first) \<Rightarrow> Inr (vec_to, False))"
      using False
      by (subst executeForArgument.simps)
         (auto simp: is_tuple_column_def split: column.splits)
    then show ?thesis unfolding u by (simp split: sum.splits)
  next
    case True
    show ?thesis
    proof (cases column)
      case (ColumnTuple cs)
      with "1.prems" obtain tys where ty: "type = TypeTuple tys" and ne: "cs \<noteq> []"
        and f: "flatten_fields tys cs = Some units"
        by (subst (asm) flatten_argument.simps)
           (auto split: data_type.splits if_splits)
      have un: "units \<noteq> []" using flatten_nonempty(2) [OF f ne] .
      have "executeForArgument_loop F tys cs st = run_units F units st"
        using "1.IH"(1) [OF ColumnTuple ty f] .
      then have "executeForArgument F type column st =
          (case run_units F units st of Inl e \<Rightarrow> Inl e | Inr (v, b) \<Rightarrow> Inr (v, False))"
        by (subst executeForArgument.simps) (simp add: ColumnTuple ty)
      then show ?thesis using run_units_then_clear [OF un] by simp
    next
      case (ColumnConst d s)
      with True obtain cs where d: "d = ColumnTuple cs"
        by (auto simp: is_tuple_column_def split: column.splits)
      with ColumnConst "1.prems" obtain tys where ty: "type = TypeTuple tys" and ne: "cs \<noteq> []"
        and f: "flatten_fields tys (map (\<lambda>c. ColumnConst c s) cs) = Some units"
        by (subst (asm) flatten_argument.simps)
           (auto split: data_type.splits if_splits)
      have un: "units \<noteq> []" using flatten_nonempty(2) [OF f] ne by simp
      have "executeForArgument_loop F tys (map (\<lambda>c. ColumnConst c (column_size column)) cs) st
          = run_units F units st"
        using "1.IH"(2) [OF ColumnConst d ty] f by (simp add: ColumnConst)
      then have "executeForArgument F type column st =
          (case run_units F units st of Inl e \<Rightarrow> Inl e | Inr (v, b) \<Rightarrow> Inr (v, False))"
        by (subst executeForArgument.simps) (simp add: ColumnConst d ty)
      then show ?thesis using run_units_then_clear [OF un] by simp
    qed (use True in \<open>auto simp: is_tuple_column_def\<close>)
  qed
next
  case (2 F tuple_types tuple_columns st)
  show ?case
  proof (cases tuple_columns)
    case Nil
    with "2.prems" have "us = []"
      by (subst (asm) flatten_fields.simps) (auto split: list.splits)
    with Nil show ?thesis by (subst executeForArgument_loop.simps) simp
  next
    case (Cons c cs)
    with "2.prems" obtain t ts u others where tys: "tuple_types = t # ts"
      and fu: "flatten_argument t c = Some u" and fm: "flatten_fields ts cs = Some others"
      and us: "us = u @ others"
      by (subst (asm) flatten_fields.simps) (auto split: list.splits option.splits)
    have a: "executeForArgument F t c st = run_units F u st"
      using "2.IH"(1) [OF Cons tys fu] .
    have b: "\<And>st'. executeForArgument F t c st = Inr st' \<Longrightarrow>
        executeForArgument_loop F ts cs st' = run_units F others st'"
      using "2.IH"(2) [OF Cons tys _ fm] by simp
    show ?thesis
      unfolding us run_units_append
      by (subst executeForArgument_loop.simps) (auto simp: Cons tys a [symmetric] b split: sum.splits)
  qed
qed


lemma flatten_no_tuple:
  "flatten_argument t c = Some units \<Longrightarrow> \<forall>u\<in>set units. \<not> is_tuple_column (snd u)"
  "flatten_fields tys cols = Some us \<Longrightarrow> \<forall>u\<in>set us. \<not> is_tuple_column (snd u)"
proof (induction t c and tys cols arbitrary: units and us rule: flatten_argument_flatten_fields.induct)
  case (1 type column)
  show ?case
  proof (cases "is_tuple_column column")
    case False
    then have "units = [(type, column)]"
      using "1.prems"
      by (subst (asm) flatten_argument.simps)
         (auto simp: is_tuple_column_def split: column.splits data_type.splits if_splits)
    with False show ?thesis by simp
  next
    case True
    show ?thesis
    proof (cases column)
      case (ColumnTuple cs)
      with "1.prems" obtain tys where ty: "type = TypeTuple tys" and ne: "cs \<noteq> []"
        and f: "flatten_fields tys cs = Some units"
        by (subst (asm) flatten_argument.simps)
           (auto split: data_type.splits if_splits)
      show ?thesis using "1.IH"(1) [OF ColumnTuple ty ne f] .
    next
      case (ColumnConst d s)
      with True obtain cs where d: "d = ColumnTuple cs"
        by (auto simp: is_tuple_column_def split: column.splits)
      with ColumnConst "1.prems" obtain tys where ty: "type = TypeTuple tys" and ne: "cs \<noteq> []"
        and f: "flatten_fields tys (map (\<lambda>c. ColumnConst c s) cs) = Some units"
        by (subst (asm) flatten_argument.simps)
           (auto split: data_type.splits if_splits)
      show ?thesis using "1.IH"(2) [OF ColumnConst d ty ne f] .
    qed (use True in \<open>auto simp: is_tuple_column_def\<close>)
  qed
next
  case (2 tys cols)
  show ?case
  proof (cases cols)
    case Nil
    with "2.prems" have "us = []"
      by (subst (asm) flatten_fields.simps) (auto split: list.splits)
    then show ?thesis by simp
  next
    case (Cons c cs)
    with "2.prems" obtain t ts u others where tys: "tys = t # ts"
      and fu: "flatten_argument t c = Some u" and fm: "flatten_fields ts cs = Some others"
      and us: "us = u @ others"
      by (subst (asm) flatten_fields.simps) (auto split: list.splits option.splits)
    show ?thesis
      unfolding us using "2.IH"(1) [OF Cons tys fu] "2.IH"(2) [OF Cons tys fu fm] by auto
  qed
qed

lemma run_units_flatten_arguments:
  "flatten_arguments arguments = Some units \<Longrightarrow> run_units F arguments st = run_units F units st"
proof (induction arguments arbitrary: units st)
  case Nil
  then show ?case by simp
next
  case (Cons a arguments)
  obtain t c where a: "a = (t, c)" by (cases a)
  from Cons.prems obtain u others where fu: "flatten_argument t c = Some u"
    and fo: "flatten_arguments arguments = Some others" and us: "units = u @ others"
    by (auto simp: a split: option.splits)
  show ?case
    unfolding us a run_units_append
    by (simp add: executeForArgument_flatten(1) [OF fu] Cons.IH [OF fo] split: sum.splits)
qed

lemma flatten_arguments_no_tuple:
  "flatten_arguments arguments = Some units \<Longrightarrow> \<forall>u\<in>set units. \<not> is_tuple_column (snd u)"
proof (induction arguments arbitrary: units)
  case Nil
  then show ?case by simp
next
  case (Cons a arguments)
  obtain t c where a: "a = (t, c)" by (cases a)
  from Cons.prems obtain u others where fu: "flatten_argument t c = Some u"
    and fo: "flatten_arguments arguments = Some others" and us: "units = u @ others"
    by (auto simp: a split: option.splits)
  show ?case unfolding us using flatten_no_tuple(1) [OF fu] Cons.IH [OF fo] by auto
qed

lemma flatten_arguments_Nil_iff:
  "flatten_arguments arguments = Some units \<Longrightarrow> units = [] \<longleftrightarrow> arguments = []"
proof (cases arguments)
  case Nil
  assume "flatten_arguments arguments = Some units"
  with Nil show ?thesis by simp
next
  case (Cons a rest)
  assume f: "flatten_arguments arguments = Some units"
  obtain t c where a: "a = (t, c)" by (cases a)
  from f Cons obtain u others where fu: "flatten_argument t c = Some u" and us: "units = u @ others"
    by (auto simp: a split: option.splits)
  from flatten_nonempty(1) [OF fu] us Cons show ?thesis by simp
qed

lemma for_loop_arguments:
  "length pre = k \<Longrightarrow>
   for_loop [k..<k + length xs]
     (\<lambda>i st. executeForArgument F (fst ((pre @ xs @ rest) ! i)) (snd ((pre @ xs @ rest) ! i)) st) st
   = run_units F xs st"
proof (induction xs arbitrary: pre k st)
  case Nil
  then show ?case by simp
next
  case (Cons x xs)
  obtain t c where x: "x = (t, c)" by (cases x)
  have u: "[k..<k + length (x # xs)] = k # [Suc k..<Suc k + length xs]"
    by (subst upt_rec) simp
  have n: "(pre @ (x # xs) @ rest) ! k = x" using Cons.prems by (simp add: nth_append)
  have IH: "\<And>st. for_loop [Suc k..<Suc k + length xs]
     (\<lambda>i st. executeForArgument F (fst (((pre @ [x]) @ xs @ rest) ! i))
                 (snd (((pre @ [x]) @ xs @ rest) ! i)) st) st
     = run_units F xs st"
    using Cons.prems by (intro Cons.IH) simp
  show ?case
    unfolding u for_loop.simps n using IH by (simp add: x split: sum.splits)
qed

lemma execute_arguments_run_units:
  "execute_arguments F (xs @ rest) (length xs) n =
     (case run_units F xs
             (if xs = [] then replicate n (ucast (0xe28dbde7fe22e41c :: 64 word))
              else new_container F n, True) of
        Inl e \<Rightarrow> Inl e
      | Inr (vec, is_first_argument) \<Rightarrow> Inr vec)"
  using for_loop_arguments [of "[]" 0 xs F rest]
  by (simp add: execute_arguments_def Let_def)

text \<open>
  Claim C2: for every tuple-typed call argument of the variadic hash functions, the result
  column is the one of the call in which the tuple is replaced by its fields, in
  declaration order, as separate arguments, nested tuples replaced likewise: every field
  is assigned into or combined into the running row digest as an argument of its own,
  and no unit that is traversed is a tuple.
\<close>

theorem tuple_arguments_are_flattened:
  "flatten_arguments arguments = Some units \<Longrightarrow>
     (\<forall>u\<in>set units. \<not> is_tuple_column (snd u))
     \<and> (\<not> with_seed F \<longrightarrow> executeImpl F arguments n = executeImpl F units n)
     \<and> (with_seed F \<longrightarrow> executeImpl F (arguments @ [sd]) n = executeImpl F (units @ [sd]) n)"
proof (intro conjI impI)
  assume f: "flatten_arguments arguments = Some units"
  show "\<forall>u\<in>set units. \<not> is_tuple_column (snd u)"
    using f by (rule flatten_arguments_no_tuple)
  have e: "\<And>G rest. execute_arguments G (arguments @ rest) (length arguments) n
      = execute_arguments G (units @ rest) (length units) n"
  proof (cases "arguments = []")
    case True
    with flatten_arguments_Nil_iff [OF f] have "units = []" by simp
    with True show "execute_arguments G (arguments @ rest) (length arguments) n
      = execute_arguments G (units @ rest) (length units) n" for G rest by simp
  next
    case False
    with flatten_arguments_Nil_iff [OF f] have "units \<noteq> []" by simp
    with False show "execute_arguments G (arguments @ rest) (length arguments) n
      = execute_arguments G (units @ rest) (length units) n" for G rest
      unfolding execute_arguments_run_units
      by (simp add: run_units_flatten_arguments [OF f])
  qed
  {
    assume "\<not> with_seed F"
    then show "executeImpl F arguments n = executeImpl F units n"
      using e [of F "[]"] by (simp add: executeImpl_def)
  }
  {
    assume "with_seed F"
    then show "executeImpl F (arguments @ [sd]) n = executeImpl F (units @ [sd]) n"
      by (simp add: executeImpl_def e split: column.splits)
  }
qed

theorem tuple_arguments_are_flattened_witness:
  "flatten_arguments
     [(TypeTuple [TypeString, TypeTuple [TypeNumber UInt8]],
       ColumnTuple [ColumnString (bytes_of ''ab'' @ [0]) [3], ColumnTuple [ColumnVector UInt8 [[1]]]])]
     = Some [(TypeString, ColumnString (bytes_of ''ab'' @ [0]) [3]),
             (TypeNumber UInt8, ColumnVector UInt8 [[1]])]
   \<and> executeImpl example_seeded
       [(TypeTuple [TypeString, TypeTuple [TypeNumber UInt8]],
         ColumnTuple [ColumnString (bytes_of ''ab'' @ [0]) [3], ColumnTuple [ColumnVector UInt8 [[1]]]]),
        (TypeNumber UInt8, ColumnConst (ColumnVector UInt8 [[7]]) 1)] 1
     = executeImpl example_seeded
       [(TypeString, ColumnString (bytes_of ''ab'' @ [0]) [3]),
        (TypeNumber UInt8, ColumnVector UInt8 [[1]]),
        (TypeNumber UInt8, ColumnConst (ColumnVector UInt8 [[7]]) 1)] 1"
proof -
  have f: "flatten_arguments
     [(TypeTuple [TypeString, TypeTuple [TypeNumber UInt8]],
       ColumnTuple [ColumnString (bytes_of ''ab'' @ [0]) [3], ColumnTuple [ColumnVector UInt8 [[1]]]])]
     = Some [(TypeString, ColumnString (bytes_of ''ab'' @ [0]) [3]),
             (TypeNumber UInt8, ColumnVector UInt8 [[1]])]"
    by (simp add: flatten_argument.simps flatten_fields.simps)
  have w: "with_seed example_seeded" by (simp add: example_seeded_def)
  show ?thesis
    using tuple_arguments_are_flattened [OF f, where F = example_seeded and n = 1
        and sd = "(TypeNumber UInt8, ColumnConst (ColumnVector UInt8 [[7]]) 1)"] f w
    by simp
qed

section \<open>The hashes that do not combine\<close>













lemma length_repeat_offsets: "length (repeat_offsets s p offs) = s * length offs"
  by (induction s) (simp_all add: repeat_offsets_def)

lemma repeat_offsets_eq_Nil [simp]: "repeat_offsets s p offs = [] \<longleftrightarrow> s = 0 \<or> offs = []"
  using length_repeat_offsets [of s p offs] by (metis length_0_conv mult_is_0)










































end
